theory Spec2Isabelle
  imports Main "HOL-Library.Sublist" "HOL-Library.AList"
begin

section \<open>Strings and truthiness\<close>

text \<open>
  Strings are lists of code units; a HOL \<open>char\<close> covers the code units 0..255, which is
  all the functions below look at. JavaScript treats the empty string and \<open>undefined\<close>
  as false in a condition; an optional string field is a \<open>string option\<close>, with
  \<open>None\<close> for \<open>undefined\<close>.
\<close>

definition truthy :: "string \<Rightarrow> bool" where
  "truthy s = (s \<noteq> [])"

definition truthyOpt :: "string option \<Rightarrow> bool" where
  "truthyOpt v = (case v of None \<Rightarrow> False | Some s \<Rightarrow> truthy s)"

section \<open>Trimming and splitting strings\<close>

text \<open>
  \<open>String.prototype.trim\<close> removes white space and line terminators from both ends; in
  the range of a \<open>char\<close> these are tab, line feed, vertical tab, form feed, carriage
  return, space and the no-break space.
\<close>

definition isWhitespace :: "char \<Rightarrow> bool" where
  "isWhitespace c =
     (c = CHR 0x09 \<or> c = CHR 0x0A \<or> c = CHR 0x0B \<or> c = CHR 0x0C \<or> c = CHR 0x0D
      \<or> c = CHR 0x20 \<or> c = CHR 0xA0)"

definition trim :: "string \<Rightarrow> string" where
  "trim s = rev (dropWhile isWhitespace (rev (dropWhile isWhitespace s)))"

text \<open>\<open>s.split('\n')\<close>: the pieces between line feeds, one more than there are line feeds.\<close>

fun splitNl :: "string \<Rightarrow> string list" where
  "splitNl [] = [[]]"
| "splitNl (c # cs) =
     (if c = CHR 0x0A then [] # splitNl cs
      else (case splitNl cs of [] \<Rightarrow> [[c]] | l # ls \<Rightarrow> (c # l) # ls))"

text \<open>\<open>lines.join('\n')\<close>.\<close>

fun joinNl :: "string list \<Rightarrow> string" where
  "joinNl [] = []"
| "joinNl [l] = l"
| "joinNl (l # ls) = l @ CHR 0x0A # joinNl ls"

definition startsWith :: "string \<Rightarrow> string \<Rightarrow> bool" where
  "startsWith s p = prefix p s"

definition endsWith :: "string \<Rightarrow> string \<Rightarrow> bool" where
  "endsWith s p = suffix p s"

section \<open>The in-memory environment store (claudeEnvMemory.ts)\<close>

record ClaudeEnvVar =
  key :: string
  envValue :: string
  description :: "string option"
  created_at :: string
  updated_at :: string

text \<open>
  \<open>claudeEnvStore\<close> is a JavaScript \<open>Map\<close>: an association list in insertion order,
  where \<open>set\<close> on an existing key replaces the value in place and on a new key appends
  (\<open>AList.update\<close>). The clock reading \<open>new Date().toISOString()\<close> is the parameter
  \<open>now\<close>.
\<close>

type_synonym envStore = "(string \<times> ClaudeEnvVar) list"

definition setClaudeEnvVar ::
  "string \<Rightarrow> envStore \<Rightarrow> string \<Rightarrow> string \<Rightarrow> string option \<Rightarrow> ClaudeEnvVar \<times> envStore" where
  "setClaudeEnvVar now store k v d =
     (let existing = map_of store k;
          envVar = \<lparr> key = k, envValue = v, description = d,
                     created_at = (case existing of
                                     None \<Rightarrow> now
                                   | Some e \<Rightarrow> if truthy (created_at e) then created_at e else now),
                     updated_at = now \<rparr>
      in (envVar, AList.update k envVar store))"

definition deleteClaudeEnvVar :: "envStore \<Rightarrow> string \<Rightarrow> bool \<times> envStore" where
  "deleteClaudeEnvVar store k = (map_of store k \<noteq> None, AList.delete k store)"

fun bulkUpdateClaudeEnvVars ::
  "string \<Rightarrow> envStore \<Rightarrow> (string \<times> string) list \<Rightarrow> ClaudeEnvVar list \<times> envStore" where
  "bulkUpdateClaudeEnvVars now store [] = ([], store)"
| "bulkUpdateClaudeEnvVars now store ((k, v) # kvs) =
     (if truthy k
      then (let (envVar, store') = setClaudeEnvVar now store k v None;
                (results, store'') = bulkUpdateClaudeEnvVars now store' kvs
            in (envVar # results, store''))
      else bulkUpdateClaudeEnvVars now store kvs)"

definition getClaudeEnvAsRecord :: "envStore \<Rightarrow> (string \<rightharpoonup> string)" where
  "getClaudeEnvAsRecord store =
     foldl (\<lambda>envRecord (k, envVar). envRecord(k \<mapsto> envValue envVar)) Map.empty store"

section \<open>The environment of the spawned child (spawnClaude)\<close>

definition essentialVars :: "string list" where
  "essentialVars =
     [''PATH'', ''HOME'', ''USER'', ''SHELL'', ''TERM'', ''TMPDIR'', ''LANG'', ''LC_ALL'']"

text \<open>
  \<open>process.env\<close> is a map from names to strings. The loop copies a whitelisted
  variable under the guard \<open>if (process.env[key])\<close>, which is false for an unset
  variable and for one set to the empty string.
\<close>

definition inheritEssential :: "(string \<rightharpoonup> string) \<Rightarrow> (string \<rightharpoonup> string)" where
  "inheritEssential processEnv =
     foldl (\<lambda>claudeEnv k. if truthyOpt (processEnv k) then claudeEnv(k := processEnv k)
                           else claudeEnv)
           Map.empty essentialVars"

definition objectAssign :: "('k \<rightharpoonup> 'v) \<Rightarrow> ('k \<rightharpoonup> 'v) \<Rightarrow> ('k \<rightharpoonup> 'v)" where
  "objectAssign target source = target ++ source"

definition buildClaudeEnv ::
  "(string \<rightharpoonup> string) \<Rightarrow> envStore \<Rightarrow> (string \<rightharpoonup> string) option \<Rightarrow> (string \<rightharpoonup> string)" where
  "buildClaudeEnv processEnv store optionsEnv =
     (let claudeEnv = inheritEssential processEnv;
          claudeMemoryEnvVars = getClaudeEnvAsRecord store;
          claudeEnv = objectAssign claudeEnv claudeMemoryEnvVars
      in case optionsEnv of
           None \<Rightarrow> claudeEnv
         | Some env \<Rightarrow> objectAssign claudeEnv env)"

text \<open>
  The environment the specification describes: every whitelisted variable that is present
  in the host environment, then the store, then the per-request record.
\<close>

definition specChildEnv ::
  "(string \<rightharpoonup> string) \<Rightarrow> envStore \<Rightarrow> (string \<rightharpoonup> string) option \<Rightarrow> (string \<rightharpoonup> string)" where
  "specChildEnv processEnv store optionsEnv =
     (processEnv |` set essentialVars) ++ getClaudeEnvAsRecord store
       ++ (case optionsEnv of None \<Rightarrow> Map.empty | Some env \<Rightarrow> env)"


section \<open>The sidecar configuration (projectConfig.ts)\<close>

record projectEntry =
  manuallyAdded :: "bool option"
  originalPath :: "string option"
  displayName :: "string option"

text \<open>
  The sidecar file holds one JSON object, from alias to entry. \<open>loadProjectConfig\<close>
  returns the empty object when the file is missing or does not parse (\<open>None\<close>);
  \<open>saveProjectConfig\<close> writes the object back.
\<close>

type_synonym ProjectConfig = "string \<rightharpoonup> projectEntry"

definition loadProjectConfig :: "ProjectConfig option \<Rightarrow> ProjectConfig" where
  "loadProjectConfig configFile = (case configFile of None \<Rightarrow> Map.empty | Some config \<Rightarrow> config)"

definition saveProjectConfig :: "ProjectConfig \<Rightarrow> ProjectConfig option" where
  "saveProjectConfig config = Some config"

definition emptyEntry :: projectEntry where
  "emptyEntry = \<lparr> manuallyAdded = None, originalPath = None, displayName = None \<rparr>"

definition renameProject :: "ProjectConfig option \<Rightarrow> string \<Rightarrow> string \<Rightarrow> ProjectConfig option" where
  "renameProject configFile projectName newDisplayName =
     (let config = loadProjectConfig configFile
      in if \<not> truthy newDisplayName \<or> trim newDisplayName = []
         then saveProjectConfig (config(projectName := None))
         else (let entry = (case config projectName of None \<Rightarrow> emptyEntry | Some e \<Rightarrow> e)
               in saveProjectConfig
                    (config(projectName \<mapsto> entry\<lparr> displayName := Some (trim newDisplayName) \<rparr>))))"

section \<open>The stdout handler and the live-process map (spawnClaude, abortClaudeSession)\<close>

text \<open>
  A line of the child's stdout goes through \<open>JSON.parse\<close>, the platform's parser, here the
  parameter \<open>parse\<close>: \<open>None\<close> where it throws (or yields \<open>null\<close>, whose property read
  throws inside the same \<open>try\<close>), otherwise the parsed object, of which the handler reads
  \<open>session_id\<close> and forwards the whole.
\<close>

record response =
  session_id :: "string option"
  body :: string

datatype frame =
    SessionCreated string
  | ClaudeResponse response
  | ClaudeOutput string
  | ClaudeError string
  | ClaudeComplete int bool

text \<open>
  The state an invocation works on: its two closure variables, the module's map of live
  children (a child handle is a number) and the frames handed to \<open>ws.send\<close> so far.
\<close>

record invocation =
  capturedSessionId :: "string option"
  sessionCreatedSent :: bool
  activeClaudeProcesses :: "string \<rightharpoonup> nat"
  sent :: "frame list"

text \<open>\<open>capturedSessionId || sessionId || Date.now().toString()\<close>, the last as \<open>nowStr\<close>.\<close>

definition processKeyOf :: "string option \<Rightarrow> string \<Rightarrow> string" where
  "processKeyOf inputSessionId nowStr =
     (case inputSessionId of None \<Rightarrow> nowStr | Some s \<Rightarrow> if truthy s then s else nowStr)"

definition spawnRegister ::
  "string option \<Rightarrow> string \<Rightarrow> nat \<Rightarrow> (string \<rightharpoonup> nat) \<Rightarrow> invocation" where
  "spawnRegister inputSessionId nowStr claudeProcess procs =
     \<lparr> capturedSessionId = inputSessionId, sessionCreatedSent = False,
       activeClaudeProcesses = procs(processKeyOf inputSessionId nowStr \<mapsto> claudeProcess),
       sent = [] \<rparr>"

definition captureSessionId ::
  "string option \<Rightarrow> string \<Rightarrow> nat \<Rightarrow> string \<Rightarrow> invocation \<Rightarrow> invocation" where
  "captureSessionId inputSessionId processKey claudeProcess captured st =
     (let st1 = st\<lparr> capturedSessionId := Some captured \<rparr>;
          st2 = (if processKey \<noteq> captured \<and> truthy captured
                 then st1\<lparr> activeClaudeProcesses :=
                            ((activeClaudeProcesses st1)(processKey := None))(captured \<mapsto> claudeProcess) \<rparr>
                 else st1)
      in if \<not> truthyOpt inputSessionId \<and> \<not> sessionCreatedSent st2
         then st2\<lparr> sessionCreatedSent := True, sent := sent st2 @ [SessionCreated captured] \<rparr>
         else st2)"

definition handleLine ::
  "(string \<Rightarrow> response option) \<Rightarrow> string option \<Rightarrow> string \<Rightarrow> nat \<Rightarrow> invocation \<Rightarrow> string
     \<Rightarrow> invocation" where
  "handleLine parse inputSessionId processKey claudeProcess st line =
     (case parse line of
        None \<Rightarrow> st\<lparr> sent := sent st @ [ClaudeOutput line] \<rparr>
      | Some response \<Rightarrow>
          (let st1 = (case session_id response of
                        None \<Rightarrow> st
                      | Some captured \<Rightarrow>
                          if truthy captured \<and> \<not> truthyOpt (capturedSessionId st)
                          then captureSessionId inputSessionId processKey claudeProcess captured st
                          else st)
           in st1\<lparr> sent := sent st1 @ [ClaudeResponse response] \<rparr>))"

definition stdoutLines :: "string \<Rightarrow> string list" where
  "stdoutLines rawOutput = filter (\<lambda>line. truthy (trim line)) (splitNl rawOutput)"

definition onStdoutData ::
  "(string \<Rightarrow> response option) \<Rightarrow> string option \<Rightarrow> string \<Rightarrow> nat \<Rightarrow> invocation \<Rightarrow> string
     \<Rightarrow> invocation" where
  "onStdoutData parse inputSessionId processKey claudeProcess st rawOutput =
     foldl (handleLine parse inputSessionId processKey claudeProcess) st (stdoutLines rawOutput)"

text \<open>The handler over the chunks of a stream, in the order they arrive.\<close>

definition runStdout ::
  "(string \<Rightarrow> response option) \<Rightarrow> string option \<Rightarrow> string \<Rightarrow> nat \<Rightarrow> invocation \<Rightarrow> string list
     \<Rightarrow> invocation" where
  "runStdout parse inputSessionId processKey claudeProcess st chunks =
     foldl (onStdoutData parse inputSessionId processKey claudeProcess) st chunks"

text \<open>
  \<open>abortClaudeSession\<close>: the boolean it returns, the child it signals (if any) and the map
  afterwards.
\<close>

definition abortClaudeSession ::
  "(string \<rightharpoonup> nat) \<Rightarrow> string \<Rightarrow> bool \<times> nat option \<times> (string \<rightharpoonup> nat)" where
  "abortClaudeSession procs sid =
     (case procs sid of
        Some process \<Rightarrow> (True, Some process, procs(sid := None))
      | None \<Rightarrow> (False, None, procs))"

text \<open>The results of calling abort with the same id \<open>n\<close> times in a row.\<close>

fun abortRepeatedly :: "nat \<Rightarrow> (string \<rightharpoonup> nat) \<Rightarrow> string \<Rightarrow> bool list" where
  "abortRepeatedly 0 procs sid = []"
| "abortRepeatedly (Suc n) procs sid =
     (case abortClaudeSession procs sid of
        (ok, _, procs') \<Rightarrow> ok # abortRepeatedly n procs' sid)"

text \<open>
  Vocabulary for the frame sequence: the frame a line produces by itself, whether a line parses
  to an object with a truthy \<open>session_id\<close>, and that id.
\<close>

definition plainFrame :: "(string \<Rightarrow> response option) \<Rightarrow> string \<Rightarrow> frame" where
  "plainFrame parse line =
     (case parse line of None \<Rightarrow> ClaudeOutput line | Some r \<Rightarrow> ClaudeResponse r)"

definition carriesSessionId :: "(string \<Rightarrow> response option) \<Rightarrow> string \<Rightarrow> bool" where
  "carriesSessionId parse line =
     (case parse line of None \<Rightarrow> False | Some r \<Rightarrow> truthyOpt (session_id r))"

definition sessionIdOf :: "(string \<Rightarrow> response option) \<Rightarrow> string \<Rightarrow> string" where
  "sessionIdOf parse line =
     (case parse line of None \<Rightarrow> [] | Some r \<Rightarrow> (case session_id r of None \<Rightarrow> [] | Some c \<Rightarrow> c))"

definition isSessionCreated :: "frame \<Rightarrow> bool" where
  "isSessionCreated f = (case f of SessionCreated _ \<Rightarrow> True | _ \<Rightarrow> False)"

definition isClaudeResponse :: "frame \<Rightarrow> bool" where
  "isClaudeResponse f = (case f of ClaudeResponse _ \<Rightarrow> True | _ \<Rightarrow> False)"

text \<open>An invocation: the registration at spawn, then the stdout handler over the chunks.\<close>

definition runInvocation ::
  "(string \<Rightarrow> response option) \<Rightarrow> string option \<Rightarrow> string \<Rightarrow> nat \<Rightarrow> (string \<rightharpoonup> nat) \<Rightarrow> string list
     \<Rightarrow> invocation" where
  "runInvocation parse inputSessionId nowStr claudeProcess procs chunks =
     runStdout parse inputSessionId (processKeyOf inputSessionId nowStr) claudeProcess
       (spawnRegister inputSessionId nowStr claudeProcess procs) chunks"

text \<open>
  The ordering as the specification words it: the first session-created frame stands before
  the first response frame of the sequence.
\<close>

definition sessionCreatedPrecedesResponses :: "frame list \<Rightarrow> bool" where
  "sessionCreatedPrecedesResponses frames =
     (length (takeWhile (\<lambda>f. \<not> isSessionCreated f) frames)
        < length (takeWhile (\<lambda>f. \<not> isClaudeResponse f) frames))"

text \<open>Two lines of an agent's output and what \<open>JSON.parse\<close> makes of them.\<close>

definition exampleParse :: "string \<Rightarrow> response option" where
  \<open>exampleParse =
     map_of [(''{"type":"system"}'', \<lparr> session_id = None, body = ''{"type":"system"}'' \<rparr>),
             (''{"session_id":"abc","type":"assistant"}'',
                \<lparr> session_id = Some ''abc'', body = ''{"session_id":"abc","type":"assistant"}'' \<rparr>)]\<close>

definition exampleChunk1 :: string where
  \<open>exampleChunk1 = ''{"session_id":"abc","type":"assistant"}'' @ [CHR 0x0A]\<close>

definition exampleChunk2 :: string where
  \<open>exampleChunk2 = ''{"type":"system"}'' @ [CHR 0x0A]
                      @ ''{"session_id":"abc","type":"assistant"}'' @ [CHR 0x0A]\<close>

section \<open>Argument assembly (buildClaudeArgs, checkMcpConfig)\<close>

record toolsSettings =
  allowedTools :: "string list option"
  disallowedTools :: "string list option"
  skipPermissions :: "bool option"

record ClaudeSpawnOptions =
  sessionId :: "string option"
  resume :: "bool option"
  toolsSettings :: "toolsSettings option"
  permissionMode :: "string option"

text \<open>
  The tool configuration \<open>~/.claude.json\<close>, as far as \<open>checkMcpConfig\<close> reads it: the
  server names under \<open>mcpServers\<close>, and for each project path under \<open>claudeProjects\<close> the
  server names of that project. The file is missing, unparsable or parsed.
\<close>

record claudeConfig =
  mcpServers :: "string list option"
  claudeProjects :: "(string \<rightharpoonup> string list option) option"

datatype configFile = NoFile | Unparsable | Parsed claudeConfig

definition existsSync :: "configFile \<Rightarrow> bool" where
  "existsSync cfg = (case cfg of NoFile \<Rightarrow> False | _ \<Rightarrow> True)"

text \<open>\<open>obj && Object.keys(obj).length > 0\<close>\<close>

definition hasKeys :: "string list option \<Rightarrow> bool" where
  "hasKeys obj = (case obj of None \<Rightarrow> False | Some ks \<Rightarrow> length ks > 0)"

definition projectServers :: "claudeConfig \<Rightarrow> string \<Rightarrow> string list option" where
  "projectServers config currentProjectPath =
     (case claudeProjects config of
        None \<Rightarrow> None
      | Some projects \<Rightarrow> (case projects currentProjectPath of None \<Rightarrow> None | Some servers \<Rightarrow> servers))"

definition checkMcpConfig :: "string \<Rightarrow> configFile \<Rightarrow> string \<Rightarrow> string option" where
  "checkMcpConfig claudeConfigPath cfg processCwd =
     (let hasMcpServers =
            (case cfg of
               Parsed config \<Rightarrow>
                 (let hasGlobal = hasKeys (mcpServers config)
                  in if \<not> hasGlobal
                     then (case claudeProjects config of
                             None \<Rightarrow> hasGlobal
                           | Some _ \<Rightarrow> hasKeys (projectServers config processCwd))
                     else hasGlobal)
             | _ \<Rightarrow> False)
      in if hasMcpServers \<and> existsSync cfg
         then (case cfg of
                 Parsed config \<Rightarrow>
                   (let hasGlobalServers = hasKeys (mcpServers config);
                        hasProjectServers = hasKeys (projectServers config processCwd)
                    in if hasGlobalServers \<or> hasProjectServers then Some claudeConfigPath else None)
               | _ \<Rightarrow> None)
         else None)"

definition digitChar :: "nat \<Rightarrow> char" where
  "digitChar d = ''0123456789'' ! d"

fun showNat :: "nat \<Rightarrow> string" where
  "showNat n = (if n < 10 then [digitChar n] else showNat (n div 10) @ [digitChar (n mod 10)])"

text \<open>\<open>tempImagePaths.map((p, i) => `${i + 1}. ${p}`).join('\n')\<close> behind the heading.\<close>

definition imageNote :: "string list \<Rightarrow> string" where
  "imageNote tempImagePaths =
     [CHR 0x0A, CHR 0x0A] @ ''[Images provided at the following paths:]'' @ [CHR 0x0A]
       @ joinNl (map (\<lambda>(i, p). showNat (i + 1) @ ''. '' @ p) (enumerate 0 tempImagePaths))"

definition planModeTools :: "string list" where
  "planModeTools = [''Read'', ''Task'', ''exit_plan_mode'', ''TodoRead'', ''TodoWrite'']"

definition defaultSettings :: toolsSettings where
  "defaultSettings = \<lparr> allowedTools = Some [], disallowedTools = Some [], skipPermissions = Some False \<rparr>"

text \<open>
  \<open>buildClaudeArgs\<close>: \<open>args\<close> grows by one \<open>push\<close> after the other. The command is
  \<open>None\<close> for \<open>undefined\<close>.
\<close>

definition buildClaudeArgs ::
  "string option \<Rightarrow> ClaudeSpawnOptions \<Rightarrow> string list \<Rightarrow> string \<Rightarrow> configFile \<Rightarrow> string
     \<Rightarrow> string list" where
  "buildClaudeArgs command options tempImagePaths claudeConfigPath cfg processCwd =
     (let settings = (case toolsSettings options of None \<Rightarrow> defaultSettings | Some s \<Rightarrow> s);
          args = [];
          args = (case command of
                    None \<Rightarrow> args
                  | Some c \<Rightarrow>
                      if truthy c \<and> truthy (trim c)
                      then (let finalCommand =
                                  (if length tempImagePaths > 0 then c @ imageNote tempImagePaths else c)
                            in args @ [''--print'', finalCommand])
                      else args);
          args = (case sessionId options of
                    None \<Rightarrow> args
                  | Some s \<Rightarrow> if resume options = Some True \<and> truthy s then args @ [''--resume'', s]
                              else args);
          args = args @ [''--output-format'', ''stream-json'', ''--verbose''];
          args = (case checkMcpConfig claudeConfigPath cfg processCwd of
                    None \<Rightarrow> args
                  | Some mcpConfigPath \<Rightarrow>
                      if truthy mcpConfigPath then args @ [''--mcp-config'', mcpConfigPath] else args);
          args = (if resume options \<noteq> Some True then args @ [''--model'', ''sonnet''] else args);
          args = (case permissionMode options of
                    None \<Rightarrow> args
                  | Some m \<Rightarrow> if truthy m \<and> m \<noteq> ''default'' then args @ [''--permission-mode'', m]
                              else args)
      in if skipPermissions settings = Some True \<and> permissionMode options \<noteq> Some ''plan''
         then args @ [''--dangerously-skip-permissions'']
         else (let allowed = (case allowedTools settings of None \<Rightarrow> [] | Some ts \<Rightarrow> ts);
                   allowed = (if permissionMode options = Some ''plan''
                              then foldl (\<lambda>acc tool. if tool \<notin> set acc then acc @ [tool] else acc)
                                     allowed planModeTools
                              else allowed);
                   args = foldl (\<lambda>acc tool. acc @ [''--allowedTools'', tool]) args allowed
               in case disallowedTools settings of
                    None \<Rightarrow> args
                  | Some ds \<Rightarrow> foldl (\<lambda>acc tool. acc @ [''--disallowedTools'', tool]) args ds))"


text \<open>
  The words of the specification: the tool configuration declares at least one server,
  globally or for the current working directory; one flag pair per tool.
\<close>

definition declaresServer :: "configFile \<Rightarrow> string \<Rightarrow> bool" where
  "declaresServer cfg processCwd =
     (case cfg of
        Parsed config \<Rightarrow> hasKeys (mcpServers config) \<or> hasKeys (projectServers config processCwd)
      | _ \<Rightarrow> False)"

definition flagPerTool :: "string \<Rightarrow> string list \<Rightarrow> string list" where
  "flagPerTool flag tools = concat (map (\<lambda>tool. [flag, tool]) tools)"

definition exampleOptions :: ClaudeSpawnOptions where
  "exampleOptions =
     \<lparr> sessionId = Some ''abc'', resume = Some True,
       toolsSettings = Some \<lparr> allowedTools = Some [''Read'', ''Bash''],
                               disallowedTools = Some [''WebFetch''],
                               skipPermissions = Some True \<rparr>,
       permissionMode = Some ''plan'' \<rparr>"

section \<open>Session logs (sessionManagerNew.ts, projectDiscovery.ts)\<close>

text \<open>
  A log line goes through \<open>JSON.parse\<close>, the platform's parser, here the parameter
  \<open>parseLine\<close>: \<open>None\<close> where it throws (or yields \<open>null\<close>, whose property read throws
  inside the same \<open>try\<close>), otherwise the fields the readers look at. A timestamp is absent
  (or falsy), or a value that \<open>new Date\<close> cannot read, or a date, in milliseconds since the
  epoch. A message content is a string or an array of parts.
\<close>

datatype timestampField = NoTimestamp | InvalidDate | DateMs int

datatype contentField = TextContent string | PartsContent

record message =
  role :: "string option"
  content :: "contentField option"

record entry =
  entrySessionId :: "string option"
  entryType :: "string option"
  entrySummary :: "string option"
  entryTimestamp :: timestampField
  entryCwd :: "string option"
  entryMessage :: "message option"

text \<open>
  An alias directory as \<open>readdir\<close> lists it: file names with their contents. \<open>readFile\<close>
  and \<open>writeFile\<close> go by name.
\<close>

type_synonym directory = "(string \<times> string) list"

datatype error = Error string | ENOENT

definition readFile :: "directory \<Rightarrow> string \<Rightarrow> string option" where
  "readFile dir name = map_of dir name"

definition writeFile :: "directory \<Rightarrow> string \<Rightarrow> string \<Rightarrow> directory" where
  "writeFile dir name newContent = AList.update name newContent dir"

definition isJsonl :: "string \<Rightarrow> bool" where
  "isJsonl f = endsWith f ''.jsonl''"

text \<open>\<open>content.split('\n').filter(line => line.trim())\<close>\<close>

definition contentLines :: "string \<Rightarrow> string list" where
  "contentLines fileContent = filter (\<lambda>line. truthy (trim line)) (splitNl fileContent)"

section \<open>Deleting a session (deleteSession)\<close>

definition lineHasSession :: "(string \<Rightarrow> entry option) \<Rightarrow> string \<Rightarrow> string \<Rightarrow> bool" where
  "lineHasSession parseLine sid line =
     (case parseLine line of None \<Rightarrow> False | Some d \<Rightarrow> entrySessionId d = Some sid)"

definition keepLine :: "(string \<Rightarrow> entry option) \<Rightarrow> string \<Rightarrow> string \<Rightarrow> bool" where
  "keepLine parseLine sid line =
     (case parseLine line of None \<Rightarrow> True | Some d \<Rightarrow> entrySessionId d \<noteq> Some sid)"

definition hasSession :: "(string \<Rightarrow> entry option) \<Rightarrow> string \<Rightarrow> string \<Rightarrow> bool" where
  "hasSession parseLine sid fileContent =
     list_ex (lineHasSession parseLine sid) (contentLines fileContent)"

definition newContent :: "(string \<Rightarrow> entry option) \<Rightarrow> string \<Rightarrow> string \<Rightarrow> string" where
  "newContent parseLine sid fileContent =
     (let filteredLines = filter (keepLine parseLine sid) (contentLines fileContent)
      in if length filteredLines > 0 then joinNl filteredLines @ [CHR 0x0A] else [])"

text \<open>
  The loop over the \<open>.jsonl\<close> files: the flag \<open>sessionFound\<close> and the directory are the
  state; a failing read ends the call with the directory as it is by then.
\<close>

fun deleteSessionLoop ::
  "(string \<Rightarrow> entry option) \<Rightarrow> string \<Rightarrow> string list \<Rightarrow> bool \<Rightarrow> directory
     \<Rightarrow> (error + bool) \<times> directory" where
  "deleteSessionLoop parseLine sid [] sessionFound dir = (Inr sessionFound, dir)"
| "deleteSessionLoop parseLine sid (f # files) sessionFound dir =
     (case readFile dir f of
        None \<Rightarrow> (Inl ENOENT, dir)
      | Some fileContent \<Rightarrow>
          if hasSession parseLine sid fileContent
          then deleteSessionLoop parseLine sid files True
                 (writeFile dir f (newContent parseLine sid fileContent))
          else deleteSessionLoop parseLine sid files sessionFound dir)"

text \<open>
  \<open>deleteSession\<close>: the result (an error, or nothing) and the alias directory afterwards;
  \<open>None\<close> is a directory that does not exist, where \<open>access\<close> throws.
\<close>

definition deleteSession ::
  "(string \<Rightarrow> entry option) \<Rightarrow> directory option \<Rightarrow> string \<Rightarrow> (error + unit) \<times> directory option" where
  "deleteSession parseLine projectDir sid =
     (case projectDir of
        None \<Rightarrow> (Inl ENOENT, None)
      | Some dir \<Rightarrow>
          (let jsonlFiles = filter isJsonl (map fst dir)
           in if length jsonlFiles = 0
              then (Inl (Error ''No session files found for this project''), Some dir)
              else (case deleteSessionLoop parseLine sid jsonlFiles False dir of
                      (Inl e, dir') \<Rightarrow> (Inl e, Some dir')
                    | (Inr sessionFound, dir') \<Rightarrow>
                        if \<not> sessionFound
                        then (Inl (Error (''Session '' @ sid @ '' not found in any files'')), Some dir')
                        else (Inr (), Some dir'))))"

text \<open>
  An alias directory with two logs and a text file: session \<open>x\<close> lives in \<open>b.jsonl\<close> only,
  next to a line of session \<open>y\<close> and a line that is not JSON.
\<close>

definition exampleParseLine :: "string \<Rightarrow> entry option" where
  \<open>exampleParseLine =
     map_of [(''{"sessionId":"x"}'',
                \<lparr> entrySessionId = Some ''x'', entryType = None, entrySummary = None,
                  entryTimestamp = NoTimestamp, entryCwd = None, entryMessage = None \<rparr>),
             (''{"sessionId":"y"}'',
                \<lparr> entrySessionId = Some ''y'', entryType = None, entrySummary = None,
                  entryTimestamp = NoTimestamp, entryCwd = None, entryMessage = None \<rparr>)]\<close>

definition exampleLogA :: string where
  \<open>exampleLogA = ''{"sessionId":"y"}'' @ [CHR 0x0A]\<close>

definition exampleLogB :: string where
  \<open>exampleLogB = ''{"sessionId":"x"}'' @ [CHR 0x0A] @ ''{not json'' @ [CHR 0x0A]
                    @ ''{"sessionId":"y"}'' @ [CHR 0x0A] @ ''{"sessionId":"x"}''\<close>

definition exampleDir :: directory where
  "exampleDir = [(''a.jsonl'', exampleLogA), (''b.jsonl'', exampleLogB), (''notes.txt'', ''x'')]"

section \<open>Resolving an alias to a directory (extractProjectDirectory)\<close>

text \<open>
  The readers that go through \<open>readline\<close> see a file as its lines, broken at line feeds
  and carriage returns, and skip the lines that are blank after \<open>trim\<close>.
\<close>

definition readLines :: "string \<Rightarrow> string list" where
  "readLines fileContent =
     contentLines (map (\<lambda>c. if c = CHR 0x0D then CHR 0x0A else c) fileContent)"

text \<open>\<open>projectName.replace(/-/g, '/')\<close>\<close>

definition decodeProjectName :: "string \<Rightarrow> string" where
  "decodeProjectName projectName = map (\<lambda>c. if c = CHR ''-'' then CHR ''/'' else c) projectName"

text \<open>
  \<open>new Date(entry.timestamp || 0).getTime()\<close>: 0 for an absent timestamp, \<open>NaN\<close>
  (\<open>None\<close>) for an unreadable one; a comparison with \<open>NaN\<close> is false.
\<close>

definition getTime :: "timestampField \<Rightarrow> int option" where
  "getTime t = (case t of NoTimestamp \<Rightarrow> Some 0 | InvalidDate \<Rightarrow> None | DateMs ms \<Rightarrow> Some ms)"

text \<open>
  The scan's variables: \<open>cwdCounts\<close>, a \<open>Map\<close> in insertion order, \<open>latestTimestamp\<close> and
  \<open>latestCwd\<close>.
\<close>

record cwdScan =
  cwdCounts :: "(string \<times> nat) list"
  latestTimestamp :: int
  latestCwd :: "string option"

definition initialScan :: cwdScan where
  "initialScan = \<lparr> cwdCounts = [], latestTimestamp = 0, latestCwd = None \<rparr>"

definition countOf :: "(string \<times> nat) list \<Rightarrow> string \<Rightarrow> nat" where
  "countOf counts c = (case map_of counts c of None \<Rightarrow> 0 | Some n \<Rightarrow> n)"

definition scanLine :: "(string \<Rightarrow> entry option) \<Rightarrow> cwdScan \<Rightarrow> string \<Rightarrow> cwdScan" where
  "scanLine parseLine st line =
     (case parseLine line of
        None \<Rightarrow> st
      | Some e \<Rightarrow>
          (case entryCwd e of
             None \<Rightarrow> st
           | Some c \<Rightarrow>
               if truthy c
               then (let st1 = st\<lparr> cwdCounts := AList.update c (countOf (cwdCounts st) c + 1)
                                                    (cwdCounts st) \<rparr>
                     in case getTime (entryTimestamp e) of
                          None \<Rightarrow> st1
                        | Some timestamp \<Rightarrow>
                            if timestamp > latestTimestamp st1
                            then st1\<lparr> latestTimestamp := timestamp, latestCwd := Some c \<rparr>
                            else st1)
               else st))"

definition scanFiles :: "(string \<Rightarrow> entry option) \<Rightarrow> directory \<Rightarrow> cwdScan" where
  "scanFiles parseLine jsonlFiles =
     foldl (\<lambda>st (name, fileContent). foldl (scanLine parseLine) st (readLines fileContent))
       initialScan jsonlFiles"

text \<open>
  The choice. The test \<open>latestCount >= mostFrequentCount * 0.3\<close> is made on doubles; for
  counts below \<open>2^50\<close> it gives what the exact comparison \<open>10 * latestCount \<ge> 3 *
  mostFrequentCount\<close> gives, which stands here. The sort by descending count is stable.
\<close>

definition chooseCwd :: "string \<Rightarrow> cwdScan \<Rightarrow> string" where
  "chooseCwd projectName st =
     (case cwdCounts st of
        [] \<Rightarrow> decodeProjectName projectName
      | [(firstKey, _)] \<Rightarrow> if truthy firstKey then firstKey else decodeProjectName projectName
      | _ \<Rightarrow>
          (case sort_key (\<lambda>(k, n). - int n) (cwdCounts st) of
             [] \<Rightarrow> decodeProjectName projectName
           | (mostFrequent, _) # _ \<Rightarrow>
               if \<not> truthy mostFrequent then decodeProjectName projectName
               else (let latestCount = (case latestCwd st of
                                          None \<Rightarrow> 0
                                        | Some l \<Rightarrow> if truthy l then countOf (cwdCounts st) l else 0);
                         mostFrequentCount = countOf (cwdCounts st) mostFrequent
                     in case latestCwd st of
                          None \<Rightarrow> mostFrequent
                        | Some l \<Rightarrow>
                            if truthy l \<and> 10 * latestCount \<ge> 3 * mostFrequentCount
                            then l else mostFrequent)))"

text \<open>
  \<open>extractProjectDirectory\<close>: the path and the cache afterwards. \<open>None\<close> is an alias
  directory that does not exist, where \<open>access\<close> throws and the \<open>catch\<close> decodes the name.
\<close>

definition extractProjectDirectory ::
  "(string \<Rightarrow> entry option) \<Rightarrow> (string \<rightharpoonup> string) \<Rightarrow> directory option \<Rightarrow> string
     \<Rightarrow> string \<times> (string \<rightharpoonup> string)" where
  "extractProjectDirectory parseLine projectDirectoryCache projectDir projectName =
     (case projectDirectoryCache projectName of
        Some cached \<Rightarrow> (cached, projectDirectoryCache)
      | None \<Rightarrow>
          (let extractedPath =
                 (case projectDir of
                    None \<Rightarrow> decodeProjectName projectName
                  | Some dir \<Rightarrow>
                      (let jsonlFiles = filter (\<lambda>(name, _). isJsonl name) dir
                       in if length jsonlFiles = 0 then decodeProjectName projectName
                          else chooseCwd projectName (scanFiles parseLine jsonlFiles)))
           in (extractedPath, projectDirectoryCache(projectName \<mapsto> extractedPath))))"

text \<open>
  The words of the specification. The occurrences of a \<open>cwd\<close> in an alias directory: one
  per log line that carries one, with its time, in reading order; how often a \<open>cwd\<close>
  occurs; the most frequent one (the first to appear, among equals); the one with the latest
  time (the first to carry it).
\<close>

definition lineOccurrence :: "(string \<Rightarrow> entry option) \<Rightarrow> string \<Rightarrow> (string \<times> int option) option" where
  "lineOccurrence parseLine line =
     (case parseLine line of
        None \<Rightarrow> None
      | Some e \<Rightarrow> (case entryCwd e of
                     None \<Rightarrow> None
                   | Some c \<Rightarrow> if c \<noteq> [] then Some (c, getTime (entryTimestamp e)) else None))"

definition cwdOccurrences :: "(string \<Rightarrow> entry option) \<Rightarrow> directory \<Rightarrow> (string \<times> int option) list" where
  "cwdOccurrences parseLine dir =
     List.map_filter (lineOccurrence parseLine)
       (concat (map (\<lambda>(name, fileContent). readLines fileContent)
                  (filter (\<lambda>(name, _). isJsonl name) dir)))"

definition occurrenceCount :: "(string \<times> int option) list \<Rightarrow> string \<Rightarrow> nat" where
  "occurrenceCount occ c = count_list (map fst occ) c"

definition maxOccurrenceCount :: "(string \<times> int option) list \<Rightarrow> nat" where
  "maxOccurrenceCount occ = Max (set (0 # map (\<lambda>(c, _). occurrenceCount occ c) occ))"

definition mostFrequentCwd :: "(string \<times> int option) list \<Rightarrow> string option" where
  "mostFrequentCwd occ =
     map_option fst (find (\<lambda>(c, _). occurrenceCount occ c = maxOccurrenceCount occ) occ)"

definition latestTime :: "(string \<times> int option) list \<Rightarrow> int" where
  "latestTime occ = Max (set (0 # List.map_filter snd occ))"

definition latestCwdOf :: "(string \<times> int option) list \<Rightarrow> string option" where
  "latestCwdOf occ =
     (if latestTime occ > 0
      then map_option fst (find (\<lambda>(_, t). t = Some (latestTime occ)) occ)
      else None)"

definition specResolvedPath :: "string \<Rightarrow> (string \<times> int option) list \<Rightarrow> string" where
  "specResolvedPath projectName occ =
     (case remdups (map fst occ) of
        [] \<Rightarrow> decodeProjectName projectName
      | [c] \<Rightarrow> c
      | _ \<Rightarrow>
          (case mostFrequentCwd occ of
             None \<Rightarrow> decodeProjectName projectName
           | Some m \<Rightarrow>
               (case latestCwdOf occ of
                  None \<Rightarrow> m
                | Some l \<Rightarrow> if 10 * occurrenceCount occ l \<ge> 3 * occurrenceCount occ m then l else m)))"

definition exampleCwdParse :: "string \<Rightarrow> entry option" where
  \<open>exampleCwdParse =
     map_of [(''{"cwd":"/A","timestamp":"1970-01-01T00:00:01.000Z"}'',
                \<lparr> entrySessionId = None, entryType = None, entrySummary = None,
                  entryTimestamp = DateMs 1000, entryCwd = Some ''/A'', entryMessage = None \<rparr>),
             (''{"cwd":"/B","timestamp":"1970-01-01T00:00:02.000Z"}'',
                \<lparr> entrySessionId = None, entryType = None, entrySummary = None,
                  entryTimestamp = DateMs 2000, entryCwd = Some ''/B'', entryMessage = None \<rparr>)]\<close>

definition exampleLineA :: string where
  \<open>exampleLineA = ''{"cwd":"/A","timestamp":"1970-01-01T00:00:01.000Z"}'' @ [CHR 0x0A]\<close>

definition exampleLineB :: string where
  \<open>exampleLineB = ''{"cwd":"/B","timestamp":"1970-01-01T00:00:02.000Z"}'' @ [CHR 0x0A]\<close>

definition exampleCwdDir :: "nat \<Rightarrow> nat \<Rightarrow> directory" where
  "exampleCwdDir a b =
     [(''s1.jsonl'', concat (replicate a exampleLineA)),
      (''s2.jsonl'', concat (replicate b exampleLineB))]"



text \<open>What the scan does with one occurrence: count it, and keep it if it is later than all before.\<close>

definition recordOccurrence :: "cwdScan \<Rightarrow> string \<times> int option \<Rightarrow> cwdScan" where
  "recordOccurrence st occ =
     (let c = fst occ;
          st1 = st\<lparr> cwdCounts := AList.update c (countOf (cwdCounts st) c + 1) (cwdCounts st) \<rparr>
      in case snd occ of
           None \<Rightarrow> st1
         | Some timestamp \<Rightarrow>
             if timestamp > latestTimestamp st1
             then st1\<lparr> latestTimestamp := timestamp, latestCwd := Some c \<rparr>
             else st1)"

section \<open>The path sandbox (validateRelativePath, resolveProjectFilePath)\<close>

text \<open>\<open>s.includes(sub)\<close>\<close>

fun stringIncludes :: "string \<Rightarrow> string \<Rightarrow> bool" where
  "stringIncludes [] sub = (sub = [])"
| "stringIncludes (c # cs) sub = (prefix sub (c # cs) \<or> stringIncludes cs sub)"

definition isAsciiLetter :: "char \<Rightarrow> bool" where
  "isAsciiLetter c = (c \<in> set ''abcdefghijklmnopqrstuvwxyzABCDEFGHIJKLMNOPQRSTUVWXYZ'')"

text \<open>\<open>/^[a-zA-Z]:/\<close> and \<open>/[<>:"|?*]/\<close>\<close>

definition hasDrivePrefix :: "string \<Rightarrow> bool" where
  "hasDrivePrefix p = (case p of a # b # _ \<Rightarrow> isAsciiLetter a \<and> b = CHR '':'' | _ \<Rightarrow> False)"

definition hasSpecialChar :: "string \<Rightarrow> bool" where
  \<open>hasSpecialChar p = list_ex (\<lambda>c. c \<in> set ''<>:"|?*'') p\<close>

definition validateRelativePath :: "string \<Rightarrow> bool" where
  "validateRelativePath relativePath =
     (if stringIncludes relativePath ''..'' then False
      else if startsWith relativePath ''/'' then False
      else if hasDrivePrefix relativePath then False
      else if hasSpecialChar relativePath then False
      else True)"

text \<open>
  The functions of the platform's \<open>path\<close> module that the resolution calls, in their POSIX
  form and on segments. A path splits at \<open>/\<close>; normalisation drops empty and \<open>.\<close>
  segments and lets \<open>..\<close> remove the segment before it (or stay, in a relative path with
  nothing before it); \<open>resolve\<close> makes a path absolute against the working directory of
  the process; \<open>relative\<close> climbs from one resolved path to the other.
\<close>

fun splitSlash :: "string \<Rightarrow> string list" where
  "splitSlash [] = [[]]"
| "splitSlash (c # cs) =
     (if c = CHR ''/'' then [] # splitSlash cs
      else (case splitSlash cs of [] \<Rightarrow> [[c]] | s # ss \<Rightarrow> (c # s) # ss))"

fun joinSlash :: "string list \<Rightarrow> string" where
  "joinSlash [] = []"
| "joinSlash [s] = s"
| "joinSlash (s # ss) = s @ CHR ''/'' # joinSlash ss"

definition isAbsolute :: "string \<Rightarrow> bool" where
  "isAbsolute p = (case p of [] \<Rightarrow> False | c # _ \<Rightarrow> c = CHR ''/'')"

definition normStep :: "bool \<Rightarrow> string list \<Rightarrow> string \<Rightarrow> string list" where
  "normStep allowAboveRoot res seg =
     (if seg = [] \<or> seg = ''.'' then res
      else if seg = ''..''
           then (if res \<noteq> [] \<and> last res \<noteq> ''..'' then butlast res
                 else if allowAboveRoot then res @ [''..''] else res)
           else res @ [seg])"

definition normSegments :: "bool \<Rightarrow> string \<Rightarrow> string list" where
  "normSegments allowAboveRoot p = foldl (normStep allowAboveRoot) [] (splitSlash p)"

definition normalizeString :: "string \<Rightarrow> bool \<Rightarrow> string" where
  "normalizeString p allowAboveRoot = joinSlash (normSegments allowAboveRoot p)"

definition normalize :: "string \<Rightarrow> string" where
  "normalize p =
     (if p = [] then ''.''
      else (let isAbs = isAbsolute p;
                trailingSeparator = (last p = CHR ''/'');
                n = normalizeString p (\<not> isAbs)
            in if n = [] then (if isAbs then ''/'' else if trailingSeparator then ''./'' else ''.'')
               else (let n' = (if trailingSeparator then n @ ''/'' else n)
                     in if isAbs then CHR ''/'' # n' else n')))"

definition pathJoin :: "string \<Rightarrow> string \<Rightarrow> string" where
  "pathJoin a b =
     (if a = [] \<and> b = [] then ''.''
      else if a = [] then normalize b
      else if b = [] then normalize a
      else normalize (a @ CHR ''/'' # b))"

text \<open>
  \<open>resolve\<close> of one path: the path if it is absolute, else behind the working directory
  \<open>processCwd\<close> of the process. \<open>resolveSegments\<close> are the segments of the result when
  the working directory is absolute, as the platform's always is.
\<close>

definition resolveInput :: "string \<Rightarrow> string \<Rightarrow> string" where
  "resolveInput processCwd p =
     (if p = [] then processCwd @ ''/''
      else if isAbsolute p then p @ ''/''
      else processCwd @ CHR ''/'' # p @ ''/'')"

definition resolveSegments :: "string \<Rightarrow> string \<Rightarrow> string list" where
  "resolveSegments processCwd p = normSegments False (resolveInput processCwd p)"

definition resolve :: "string \<Rightarrow> string \<Rightarrow> string" where
  "resolve processCwd p =
     (let resolvedAbsolute = (if p \<noteq> [] \<and> isAbsolute p then True else isAbsolute processCwd);
          resolvedPath = normalizeString (resolveInput processCwd p) (\<not> resolvedAbsolute)
      in if resolvedAbsolute then CHR ''/'' # resolvedPath
         else if resolvedPath \<noteq> [] then resolvedPath else ''.'')"

fun commonPrefixLength :: "string list \<Rightarrow> string list \<Rightarrow> nat" where
  "commonPrefixLength (x # xs) (y # ys) = (if x = y then Suc (commonPrefixLength xs ys) else 0)"
| "commonPrefixLength _ _ = 0"

definition relative :: "string \<Rightarrow> string \<Rightarrow> string \<Rightarrow> string" where
  "relative processCwd fromPath toPath =
     (let fromSegs = resolveSegments processCwd fromPath;
          toSegs = resolveSegments processCwd toPath;
          k = commonPrefixLength fromSegs toSegs
      in joinSlash (replicate (length fromSegs - k) ''..'' @ drop k toSegs))"

text \<open>
  \<open>resolveProjectFilePath\<close>, with the alias resolved by \<open>extractProjectDirectory\<close> as
  above; the result is an error or the final path.
\<close>

definition resolveProjectFilePath ::
  "string \<Rightarrow> (string \<Rightarrow> entry option) \<Rightarrow> (string \<rightharpoonup> string) \<Rightarrow> directory option \<Rightarrow> string
     \<Rightarrow> string \<Rightarrow> error + string" where
  "resolveProjectFilePath processCwd parseLine projectDirectoryCache aliasDir projectName relativePath =
     (if isAbsolute relativePath then Inl (Error ''Project files must use relative paths.'')
      else if \<not> validateRelativePath relativePath
      then Inl (Error ''Invalid relative path - contains unsafe characters or path traversal'')
      else (let projectDir = fst (extractProjectDirectory parseLine projectDirectoryCache aliasDir
                                    projectName);
                finalPath = resolve processCwd (pathJoin projectDir relativePath);
                relativeFinal = relative processCwd projectDir finalPath
            in if startsWith relativeFinal ''..'' \<or> isAbsolute relativeFinal
               then Inl (Error ''Invalid relative path - resolves outside project directory'')
               else Inr finalPath))"

text \<open>
  The words of the specification: a path lies inside a directory when its resolved segments
  start with the directory's.
\<close>

definition insideDirectory :: "string \<Rightarrow> string \<Rightarrow> string \<Rightarrow> bool" where
  "insideDirectory processCwd dir p
     = prefix (resolveSegments processCwd dir) (resolveSegments processCwd p)"

definition isRejected :: "error + string \<Rightarrow> bool" where
  "isRejected r = (case r of Inl _ \<Rightarrow> True | Inr _ \<Rightarrow> False)"

text \<open>The paths \<open>foo\<close>, NUL, \<open>bar\<close> and \<open>C:\<close>, backslash, \<open>Windows\<close>.\<close>

definition nulPath :: string where
  "nulPath = ''foo'' @ [CHR 0x00] @ ''bar''"

definition windowsPath :: string where
  "windowsPath = ''C:'' @ [CHR 0x5C] @ ''Windows''"



text \<open>
  The segments a relative path contributes: all but the empty ones and \<open>.\<close>. A proper
  segment is a name; the segments of a normalised relative path are \<open>..\<close> or proper.
\<close>

definition cleanSegments :: "string \<Rightarrow> string list" where
  "cleanSegments p = filter (\<lambda>s. s \<noteq> [] \<and> s \<noteq> ''.'') (splitSlash p)"

definition properSegment :: "string \<Rightarrow> bool" where
  "properSegment s = (s \<noteq> [] \<and> s \<noteq> ''.'' \<and> s \<noteq> ''..'' \<and> CHR ''/'' \<notin> set s)"

definition upOrProper :: "string \<Rightarrow> bool" where
  "upOrProper s = (s = ''..'' \<or> properSegment s)"

section \<open>Session summaries (parseJsonlSessions, getClaudeSessions)\<close>

text \<open>
  A summary. \<open>lastActivity\<close> is an ISO date string made by \<open>toISOString\<close> and compared
  through \<open>getTime\<close>: it stands here as the milliseconds it denotes. The field \<open>id\<close> is
  \<open>ident\<close>.
\<close>

record ClaudeSession =
  ident :: string
  summary :: string
  lastActivity :: int
  messageCount :: nat
  cwd :: string

definition newSession :: "int \<Rightarrow> entry \<Rightarrow> string \<Rightarrow> ClaudeSession" where
  "newSession now e k =
     \<lparr> ident = k, summary = ''New Session'', lastActivity = now, messageCount = 0,
       cwd = (case entryCwd e of None \<Rightarrow> [] | Some c \<Rightarrow> c) \<rparr>"

definition entryRole :: "entry \<Rightarrow> string option" where
  "entryRole e = (case entryMessage e of None \<Rightarrow> None | Some m \<Rightarrow> role m)"

definition entryContent :: "entry \<Rightarrow> contentField option" where
  "entryContent e = (case entryMessage e of None \<Rightarrow> None | Some m \<Rightarrow> content m)"

definition contentTruthy :: "contentField option \<Rightarrow> bool" where
  "contentTruthy c = (case c of None \<Rightarrow> False | Some (TextContent t) \<Rightarrow> truthy t | Some PartsContent \<Rightarrow> True)"

text \<open>
  What one log line of a session does to its summary: the title, the message count, the
  last activity. An unreadable timestamp makes \<open>toISOString\<close> throw, as the last
  statement of the \<open>try\<close> block, so it changes nothing.
\<close>

definition updateSession :: "entry \<Rightarrow> ClaudeSession \<Rightarrow> ClaudeSession" where
  "updateSession e session =
     (let session =
            (if entryType e = Some ''summary'' \<and> truthyOpt (entrySummary e)
             then session\<lparr> summary := (case entrySummary e of None \<Rightarrow> [] | Some s \<Rightarrow> s) \<rparr>
             else if entryRole e = Some ''user'' \<and> contentTruthy (entryContent e)
                     \<and> summary session = ''New Session''
             then (case entryContent e of
                     Some (TextContent c) \<Rightarrow>
                       if length c > 0 \<and> \<not> startsWith c ''<command-name>''
                       then session\<lparr> summary := (if length c > 50 then take 50 c @ ''...'' else c) \<rparr>
                       else session
                   | _ \<Rightarrow> session)
             else session);
          session =
            (if entryRole e = Some ''user'' \<or> entryRole e = Some ''assistant''
             then session\<lparr> messageCount := messageCount session + 1 \<rparr>
             else session)
      in case entryTimestamp e of
           DateMs ms \<Rightarrow> session\<lparr> lastActivity := ms \<rparr>
         | _ \<Rightarrow> session)"

text \<open>
  The map \<open>sessions\<close> of \<open>parseJsonlSessions\<close> is in insertion order. The clock reading
  \<open>new Date()\<close> taken when a session is first seen is \<open>now\<close>.
\<close>

definition processEntry ::
  "int \<Rightarrow> (string \<times> ClaudeSession) list \<Rightarrow> entry \<Rightarrow> (string \<times> ClaudeSession) list" where
  "processEntry now sessions e =
     (case entrySessionId e of
        None \<Rightarrow> sessions
      | Some k \<Rightarrow>
          if truthy k
          then (let session = (case map_of sessions k of None \<Rightarrow> newSession now e k | Some s \<Rightarrow> s)
                in AList.update k (updateSession e session) sessions)
          else sessions)"

definition processLine ::
  "(nat \<Rightarrow> int) \<Rightarrow> (string \<Rightarrow> entry option) \<Rightarrow> (string \<times> ClaudeSession) list \<Rightarrow> nat \<times> string
     \<Rightarrow> (string \<times> ClaudeSession) list" where
  "processLine clock parseLine sessions il =
     (case parseLine (snd il) of
        None \<Rightarrow> sessions
      | Some e \<Rightarrow> processEntry (clock (fst il)) sessions e)"

text \<open>
  \<open>parseJsonlSessions\<close> on the content of a file; \<open>clock i\<close> is the time at which the
  \<open>i\<close>-th non-blank line is read. The result is sorted by descending last activity.
\<close>

definition sessionsOfFile ::
  "(nat \<Rightarrow> int) \<Rightarrow> (string \<Rightarrow> entry option) \<Rightarrow> string \<Rightarrow> (string \<times> ClaudeSession) list" where
  "sessionsOfFile clock parseLine fileContent =
     foldl (processLine clock parseLine) [] (enumerate 0 (readLines fileContent))"

definition parseJsonlSessions ::
  "(nat \<Rightarrow> int) \<Rightarrow> (string \<Rightarrow> entry option) \<Rightarrow> string \<Rightarrow> ClaudeSession list" where
  "parseJsonlSessions clock parseLine fileContent =
     sort_key (\<lambda>s. - lastActivity s) (map snd (sessionsOfFile clock parseLine fileContent))"

record sessionPage =
  sessions :: "ClaudeSession list"
  hasMore :: bool
  total :: nat
  offset :: nat
  limit :: nat

text \<open>\<open>if (!allSessions.has(session.id)) allSessions.set(session.id, session)\<close>\<close>

definition mergeSession ::
  "(string \<times> ClaudeSession) list \<Rightarrow> ClaudeSession \<Rightarrow> (string \<times> ClaudeSession) list" where
  "mergeSession allSessions session =
     (case map_of allSessions (ident session) of
        None \<Rightarrow> allSessions @ [(ident session, session)]
      | Some _ \<Rightarrow> allSessions)"

text \<open>
  The summaries of an alias directory before pagination: the files in descending order of
  modification time (a stable sort; \<open>mtime\<close> gives a file's time), each parsed, the
  summaries merged by id, the first one winning, then sorted by descending last activity.
  A file that cannot be read contributes nothing.
\<close>

definition sortedSessions ::
  "(string \<Rightarrow> nat \<Rightarrow> int) \<Rightarrow> (string \<Rightarrow> entry option) \<Rightarrow> (string \<Rightarrow> int) \<Rightarrow> directory
     \<Rightarrow> ClaudeSession list" where
  "sortedSessions clock parseLine mtime dir =
     (let jsonlFiles = filter isJsonl (map fst dir);
          filesWithStats = sort_key (\<lambda>f. - mtime f) jsonlFiles;
          allSessions =
            foldl (\<lambda>allSessions f.
                     foldl mergeSession allSessions
                       (case readFile dir f of
                          None \<Rightarrow> []
                        | Some fileContent \<Rightarrow> parseJsonlSessions (clock f) parseLine fileContent))
              [] filesWithStats
      in sort_key (\<lambda>s. - lastActivity s) (map snd allSessions))"

definition getClaudeSessions ::
  "(string \<Rightarrow> nat \<Rightarrow> int) \<Rightarrow> (string \<Rightarrow> entry option) \<Rightarrow> (string \<Rightarrow> int) \<Rightarrow> directory option
     \<Rightarrow> nat \<Rightarrow> nat \<Rightarrow> sessionPage" where
  "getClaudeSessions clock parseLine mtime projectDir lim off =
     (case projectDir of
        None \<Rightarrow> \<lparr> sessions = [], hasMore = False, total = 0, offset = off, limit = lim \<rparr>
      | Some dir \<Rightarrow>
          if length (filter isJsonl (map fst dir)) = 0
          then \<lparr> sessions = [], hasMore = False, total = 0, offset = off, limit = lim \<rparr>
          else (let sorted = sortedSessions clock parseLine mtime dir
                in \<lparr> sessions = take lim (drop off sorted),
                     hasMore = (off + lim < length sorted),
                     total = length sorted, offset = off, limit = lim \<rparr>))"

text \<open>
  The words of the specification: the lines of a session across all logs of the directory,
  the number of them that are user or assistant messages, and the latest of their
  timestamps; the claim that the listing holds exactly one summary of the session, with
  that count and that time.
\<close>

definition sessionEntries :: "(string \<Rightarrow> entry option) \<Rightarrow> string \<Rightarrow> string \<Rightarrow> entry list" where
  "sessionEntries parseLine k fileContent =
     filter (\<lambda>e. entrySessionId e = Some k) (List.map_filter parseLine (readLines fileContent))"

definition isMessage :: "entry \<Rightarrow> bool" where
  "isMessage e = (entryRole e = Some ''user'' \<or> entryRole e = Some ''assistant'')"

definition validTimes :: "entry list \<Rightarrow> int list" where
  "validTimes es = List.map_filter (\<lambda>e. case entryTimestamp e of DateMs ms \<Rightarrow> Some ms | _ \<Rightarrow> None) es"

definition sessionMergeClaim ::
  "(string \<Rightarrow> nat \<Rightarrow> int) \<Rightarrow> (string \<Rightarrow> entry option) \<Rightarrow> (string \<Rightarrow> int) \<Rightarrow> directory \<Rightarrow> string
     \<Rightarrow> bool" where
  "sessionMergeClaim clock parseLine mtime dir k =
     (let es = concat (map (\<lambda>(name, fileContent). sessionEntries parseLine k fileContent)
                         (filter (\<lambda>(name, _). isJsonl name) dir));
          page = getClaudeSessions clock parseLine mtime (Some dir)
                   (length (sortedSessions clock parseLine mtime dir)) 0
      in case filter (\<lambda>s. ident s = k) (sessions page) of
           [s] \<Rightarrow> messageCount s = length (filter isMessage es)
                  \<and> lastActivity s = Max (set (validTimes es))
         | _ \<Rightarrow> False)"

text \<open>
  Two logs of one alias directory that both hold lines of session \<open>s\<close>: the newer file one
  user message, the older file a user and an assistant message with later timestamps.
\<close>

definition exampleSessionParse :: "string \<Rightarrow> entry option" where
  \<open>exampleSessionParse =
     map_of [(''{"sessionId":"s","timestamp":"1970-01-01T00:00:00.100Z","message":{"role":"user","content":"hi"}}'',
                \<lparr> entrySessionId = Some ''s'', entryType = None, entrySummary = None,
                  entryTimestamp = DateMs 100, entryCwd = None,
                  entryMessage = Some \<lparr> role = Some ''user'', content = Some (TextContent ''hi'') \<rparr> \<rparr>),
             (''{"sessionId":"s","timestamp":"1970-01-01T00:00:00.200Z","message":{"role":"user","content":"more"}}'',
                \<lparr> entrySessionId = Some ''s'', entryType = None, entrySummary = None,
                  entryTimestamp = DateMs 200, entryCwd = None,
                  entryMessage = Some \<lparr> role = Some ''user'', content = Some (TextContent ''more'') \<rparr> \<rparr>),
             (''{"sessionId":"s","timestamp":"1970-01-01T00:00:00.300Z","message":{"role":"assistant","content":"ok"}}'',
                \<lparr> entrySessionId = Some ''s'', entryType = None, entrySummary = None,
                  entryTimestamp = DateMs 300, entryCwd = None,
                  entryMessage = Some \<lparr> role = Some ''assistant'', content = Some (TextContent ''ok'') \<rparr> \<rparr>)]\<close>

definition exampleNewerLog :: string where
  \<open>exampleNewerLog =
     ''{"sessionId":"s","timestamp":"1970-01-01T00:00:00.100Z","message":{"role":"user","content":"hi"}}''
       @ [CHR 0x0A]\<close>

definition exampleOlderLog :: string where
  \<open>exampleOlderLog =
     ''{"sessionId":"s","timestamp":"1970-01-01T00:00:00.200Z","message":{"role":"user","content":"more"}}''
       @ [CHR 0x0A]
       @ ''{"sessionId":"s","timestamp":"1970-01-01T00:00:00.300Z","message":{"role":"assistant","content":"ok"}}''
       @ [CHR 0x0A]\<close>

definition exampleSessionDir :: directory where
  "exampleSessionDir = [(''older.jsonl'', exampleOlderLog), (''newer.jsonl'', exampleNewerLog)]"

definition exampleMtime :: "string \<Rightarrow> int" where
  "exampleMtime f = (if f = ''newer.jsonl'' then 2000 else 1000)"



text \<open>
  For the amended statement: whether a line belongs to a session, the file that wins the
  merge (the first in descending order of modification time that holds a line of the
  session), and where in a file a session is first seen.
\<close>

definition isLineOf :: "(string \<Rightarrow> entry option) \<Rightarrow> string \<Rightarrow> string \<Rightarrow> bool" where
  "isLineOf parseLine k line =
     (case parseLine line of None \<Rightarrow> False | Some e \<Rightarrow> entrySessionId e = Some k)"

definition holdsSession :: "(string \<Rightarrow> entry option) \<Rightarrow> directory \<Rightarrow> string \<Rightarrow> string \<Rightarrow> bool" where
  "holdsSession parseLine dir k f =
     (case readFile dir f of
        None \<Rightarrow> False
      | Some fileContent \<Rightarrow> list_ex (isLineOf parseLine k) (readLines fileContent))"

definition winningFile ::
  "(string \<Rightarrow> entry option) \<Rightarrow> (string \<Rightarrow> int) \<Rightarrow> directory \<Rightarrow> string \<Rightarrow> string option" where
  "winningFile parseLine mtime dir k =
     find (holdsSession parseLine dir k) (sort_key (\<lambda>f. - mtime f) (filter isJsonl (map fst dir)))"

definition firstSeenAt :: "(string \<Rightarrow> entry option) \<Rightarrow> string \<Rightarrow> string \<Rightarrow> nat" where
  "firstSeenAt parseLine k fileContent =
     length (takeWhile (\<lambda>line. \<not> isLineOf parseLine k line) (readLines fileContent))"

text \<open>
  For the proofs: what the lines of a file do to the summary of one session, the lines of a
  session among given lines, a map whose keys are the ids of its summaries, and the
  summaries a named file contributes.
\<close>

definition stepOf ::
  "(nat \<Rightarrow> int) \<Rightarrow> (string \<Rightarrow> entry option) \<Rightarrow> string \<Rightarrow> ClaudeSession option \<Rightarrow> nat \<times> string
     \<Rightarrow> ClaudeSession option" where
  "stepOf clock parseLine k so il =
     (case parseLine (snd il) of
        None \<Rightarrow> so
      | Some e \<Rightarrow>
          if entrySessionId e = Some k
          then Some (updateSession e (case so of None \<Rightarrow> newSession (clock (fst il)) e k | Some s \<Rightarrow> s))
          else so)"

definition keyedByIdent :: "(string \<times> ClaudeSession) list \<Rightarrow> bool" where
  "keyedByIdent al = list_all (\<lambda>(k', s). ident s = k') al"

definition entriesOf :: "(string \<Rightarrow> entry option) \<Rightarrow> string \<Rightarrow> string list \<Rightarrow> entry list" where
  "entriesOf parseLine k ls
     = filter (\<lambda>e. entrySessionId e = Some k) (List.map_filter parseLine ls)"

definition sessionsOfName ::
  "(string \<Rightarrow> nat \<Rightarrow> int) \<Rightarrow> (string \<Rightarrow> entry option) \<Rightarrow> directory \<Rightarrow> string \<Rightarrow> ClaudeSession list" where
  "sessionsOfName clock parseLine dir f =
     (case readFile dir f of
        None \<Rightarrow> []
      | Some fileContent \<Rightarrow> parseJsonlSessions (clock f) parseLine fileContent)"

section \<open>Properties of the environment store\<close>

lemma getClaudeEnvAsRecord_foldl:
  "foldl (\<lambda>envRecord (k, envVar). envRecord(k \<mapsto> envValue envVar)) m store
     = m ++ map_of (rev (map (\<lambda>(k, e). (k, envValue e)) store))"
  by (induction store arbitrary: m) (auto simp: map_add_def fun_eq_iff split: option.splits)

lemma map_of_update_same: "map_of (AList.update k v al) k = Some v"
  by (simp add: update_conv')

text \<open>
  C9. \<open>setClaudeEnvVar\<close> has no check on the key: called with the empty key it returns
  the new variable and the store holds it under the empty string afterwards, for every
  store, value and description.
\<close>

theorem setClaudeEnvVar_empty_key_is_stored:
  "fst (setClaudeEnvVar now store [] v d)
     = \<lparr> key = [], envValue = v, description = d,
         created_at = (case map_of store [] of
                         None \<Rightarrow> now
                       | Some e \<Rightarrow> if truthy (created_at e) then created_at e else now),
         updated_at = now \<rparr>
   \<and> map_of (snd (setClaudeEnvVar now store [] v d)) []
       = Some (fst (setClaudeEnvVar now store [] v d))
   \<and> snd (setClaudeEnvVar ''2025-01-01T00:00:00.000Z'' [] [] ''v'' None) \<noteq> []"
  by (simp add: setClaudeEnvVar_def Let_def map_of_update_same)

section \<open>Properties of the child environment\<close>

lemma inheritEssential_apply:
  "inheritEssential processEnv k
     = (if k \<in> set essentialVars \<and> truthyOpt (processEnv k) then processEnv k else None)"
proof -
  have "foldl (\<lambda>claudeEnv k. if truthyOpt (processEnv k) then claudeEnv(k := processEnv k)
                               else claudeEnv) m ks k
          = (if k \<in> set ks \<and> truthyOpt (processEnv k) then processEnv k else m k)" for m ks
    by (induction ks arbitrary: m) auto
  then show ?thesis by (simp add: inheritEssential_def)
qed

lemma inheritEssential_cong:
  assumes "\<forall>k \<in> set essentialVars. processEnv k = processEnv' k"
  shows "inheritEssential processEnv = inheritEssential processEnv'"
  using assms by (auto simp: fun_eq_iff inheritEssential_apply)





section \<open>Properties of the sidecar rename\<close>

lemma trim_Nil: "trim [] = []"
  by (simp add: trim_def)

lemma trim_space: "trim '' '' = []"
  by (simp add: trim_def isWhitespace_def)

text \<open>
  C8. \<open>renameProject\<close> with an empty or a blank display name removes the alias's whole
  entry from the sidecar, \<open>manuallyAdded\<close> and \<open>originalPath\<close> with it: here on a manually
  added project, and in general.
\<close>

theorem renameProject_blank_deletes_entry:
  "renameProject
     (Some [''-tmp-p'' \<mapsto> \<lparr> manuallyAdded = Some True, originalPath = Some ''/tmp/p'',
                              displayName = Some ''P'' \<rparr>]) ''-tmp-p'' '' ''
     = Some Map.empty
   \<and> renameProject (Some config) projectName [] = Some (config(projectName := None))
   \<and> renameProject (Some config) projectName '' '' = Some (config(projectName := None))"
  by (simp add: renameProject_def loadProjectConfig_def saveProjectConfig_def truthy_def
      trim_Nil trim_space)


text \<open>
  C8 on the sidecar of a manually added project: after a rename to the empty name the
  sidecar has no entry for the alias, so \<open>manuallyAdded\<close> and \<open>originalPath\<close> are gone.
\<close>

theorem renameProject_blank_deletes_entry_witness:
  "renameProject
     (Some [''-tmp-p'' \<mapsto> \<lparr> manuallyAdded = Some True, originalPath = Some ''/tmp/p'',
                              displayName = Some ''P'' \<rparr>]) ''-tmp-p'' []
     = Some Map.empty"
  using renameProject_blank_deletes_entry
    [of "[''-tmp-p'' \<mapsto> \<lparr> manuallyAdded = Some True, originalPath = Some ''/tmp/p'',
                                 displayName = Some ''P'' \<rparr>]" "''-tmp-p''"]
  by simp

section \<open>Properties of the stdout handler\<close>

lemma handleLine_plain:
  assumes "truthyOpt (capturedSessionId st) \<or> \<not> carriesSessionId parse line"
  shows "handleLine parse inputSessionId pk proc st line = st\<lparr> sent := sent st @ [plainFrame parse line] \<rparr>"
  using assms
  by (auto simp: handleLine_def plainFrame_def carriesSessionId_def truthyOpt_def
      split: option.splits)

lemma handleLine_capture:
  assumes "\<not> truthyOpt (capturedSessionId st)" "carriesSessionId parse line"
  shows "handleLine parse inputSessionId pk proc st line
           = (let st1 = captureSessionId inputSessionId pk proc (sessionIdOf parse line) st
              in st1\<lparr> sent := sent st1 @ [plainFrame parse line] \<rparr>)"
  using assms
  by (auto simp: handleLine_def plainFrame_def carriesSessionId_def sessionIdOf_def truthyOpt_def
      split: option.splits)

lemma foldl_handleLine_plain:
  assumes "truthyOpt (capturedSessionId st) \<or> (\<forall>l \<in> set ls. \<not> carriesSessionId parse l)"
  shows "foldl (handleLine parse inputSessionId pk proc) st ls
           = st\<lparr> sent := sent st @ map (plainFrame parse) ls \<rparr>"
  using assms
proof (induction ls arbitrary: st)
  case Nil
  then show ?case by simp
next
  case (Cons l ls)
  have step: "handleLine parse inputSessionId pk proc st l = st\<lparr> sent := sent st @ [plainFrame parse l] \<rparr>"
    using Cons.prems by (intro handleLine_plain) auto
  have "truthyOpt (capturedSessionId (st\<lparr> sent := sent st @ [plainFrame parse l] \<rparr>))
        \<or> (\<forall>l \<in> set ls. \<not> carriesSessionId parse l)"
    using Cons.prems by auto
  from Cons.IH [OF this] step show ?case by simp
qed

lemma captureSessionId_captured:
  "capturedSessionId (captureSessionId inputSessionId pk proc c st) = Some c"
  by (simp add: captureSessionId_def Let_def)

lemma carries_truthy: "carriesSessionId parse l \<Longrightarrow> truthy (sessionIdOf parse l)"
  by (auto simp: carriesSessionId_def sessionIdOf_def truthyOpt_def split: option.splits)

lemma foldl_handleLine_capture:
  assumes "\<not> truthyOpt (capturedSessionId st)"
    and "\<forall>l \<in> set pre. \<not> carriesSessionId parse l"
    and "carriesSessionId parse l"
  shows "foldl (handleLine parse inputSessionId pk proc) st (pre @ l # post)
           = (let st1 = captureSessionId inputSessionId pk proc (sessionIdOf parse l)
                          (st\<lparr> sent := sent st @ map (plainFrame parse) pre \<rparr>)
              in st1\<lparr> sent := sent st1 @ plainFrame parse l # map (plainFrame parse) post \<rparr>)"
proof -
  let ?h = "handleLine parse inputSessionId pk proc"
  let ?st1 = "st\<lparr> sent := sent st @ map (plainFrame parse) pre \<rparr>"
  have pre: "foldl ?h st pre = ?st1"
    using assms(2) by (intro foldl_handleLine_plain) simp
  have "\<not> truthyOpt (capturedSessionId ?st1)" using assms(1) by simp
  from handleLine_capture [OF this assms(3)]
  have mid: "?h ?st1 l
               = (let s = captureSessionId inputSessionId pk proc (sessionIdOf parse l) ?st1
                  in s\<lparr> sent := sent s @ [plainFrame parse l] \<rparr>)" .
  have tr: "truthy (sessionIdOf parse l)"
    using assms(3) by (auto simp: carriesSessionId_def sessionIdOf_def truthyOpt_def split: option.splits)
  have "truthyOpt (capturedSessionId (?h ?st1 l))"
    unfolding mid using tr by (simp add: Let_def captureSessionId_captured truthyOpt_def)
  from foldl_handleLine_plain [of "?h ?st1 l" post parse inputSessionId pk proc] this
  have post: "foldl ?h (?h ?st1 l) post
               = (?h ?st1 l)\<lparr> sent := sent (?h ?st1 l) @ map (plainFrame parse) post \<rparr>"
    by simp
  show ?thesis
    by (simp only: foldl_append foldl_Cons pre post) (simp add: mid Let_def)
qed

lemma runStdout_lines:
  "runStdout parse inputSessionId pk proc st chunks
     = foldl (handleLine parse inputSessionId pk proc) st (concat (map stdoutLines chunks))"
  unfolding runStdout_def
  by (induction chunks arbitrary: st) (simp_all add: onStdoutData_def)

lemma split_first:
  assumes "\<exists>l \<in> set ls. P l"
  shows "ls = takeWhile (\<lambda>l. \<not> P l) ls @ hd (dropWhile (\<lambda>l. \<not> P l) ls) # tl (dropWhile (\<lambda>l. \<not> P l) ls)
         \<and> P (hd (dropWhile (\<lambda>l. \<not> P l) ls))"
proof -
  have ne: "dropWhile (\<lambda>l. \<not> P l) ls \<noteq> []" using assms by (simp add: dropWhile_eq_Nil_conv)
  then have "P (hd (dropWhile (\<lambda>l. \<not> P l) ls))" using hd_dropWhile by blast
  moreover have "ls = takeWhile (\<lambda>l. \<not> P l) ls @ dropWhile (\<lambda>l. \<not> P l) ls" by simp
  ultimately show ?thesis using ne by (metis list.collapse)
qed


lemma plainFrame_not_created: "\<not> isSessionCreated (plainFrame parse l)"
  by (simp add: plainFrame_def isSessionCreated_def split: option.splits)

lemma filter_created_plain: "filter isSessionCreated (map (plainFrame parse) ls) = []"
  by (induction ls) (simp_all add: plainFrame_not_created)

lemma spawnRegister_fields:
  "capturedSessionId (spawnRegister inputSessionId nowStr proc procs) = inputSessionId"
  "sessionCreatedSent (spawnRegister inputSessionId nowStr proc procs) = False"
  "sent (spawnRegister inputSessionId nowStr proc procs) = []"
  "activeClaudeProcesses (spawnRegister inputSessionId nowStr proc procs)
     = procs(processKeyOf inputSessionId nowStr \<mapsto> proc)"
  by (simp_all add: spawnRegister_def)

lemma runInvocation_known:
  assumes "truthyOpt inputSessionId"
  shows "runInvocation parse inputSessionId nowStr proc procs chunks
           = (spawnRegister inputSessionId nowStr proc procs)
               \<lparr> sent := map (plainFrame parse) (concat (map stdoutLines chunks)) \<rparr>"
  unfolding runInvocation_def runStdout_lines
  using assms by (subst foldl_handleLine_plain) (simp_all add: spawnRegister_fields)

lemma runInvocation_no_id:
  assumes "\<forall>l \<in> set (concat (map stdoutLines chunks)). \<not> carriesSessionId parse l"
  shows "runInvocation parse inputSessionId nowStr proc procs chunks
           = (spawnRegister inputSessionId nowStr proc procs)
               \<lparr> sent := map (plainFrame parse) (concat (map stdoutLines chunks)) \<rparr>"
  unfolding runInvocation_def runStdout_lines
  using assms by (subst foldl_handleLine_plain) (simp_all add: spawnRegister_fields)

lemma runInvocation_new:
  assumes new: "\<not> truthyOpt inputSessionId"
    and ex: "\<exists>l \<in> set (concat (map stdoutLines chunks)). carriesSessionId parse l"
  shows "runInvocation parse inputSessionId nowStr proc procs chunks
           = (let ls = concat (map stdoutLines chunks);
                  pre = takeWhile (\<lambda>l. \<not> carriesSessionId parse l) ls;
                  rest = dropWhile (\<lambda>l. \<not> carriesSessionId parse l) ls;
                  c = sessionIdOf parse (hd rest)
              in \<lparr> capturedSessionId = Some c, sessionCreatedSent = True,
                   activeClaudeProcesses = (procs(processKeyOf inputSessionId nowStr := None))(c \<mapsto> proc),
                   sent = map (plainFrame parse) pre @ SessionCreated c # map (plainFrame parse) rest \<rparr>)"
proof -
  let ?ls = "concat (map stdoutLines chunks)"
  let ?P = "carriesSessionId parse"
  let ?pre = "takeWhile (\<lambda>l. \<not> ?P l) ?ls"
  let ?rest = "dropWhile (\<lambda>l. \<not> ?P l) ?ls"
  let ?st0 = "spawnRegister inputSessionId nowStr proc procs"
  from split_first [of ?ls ?P] ex
  have dec: "?ls = ?pre @ hd ?rest # tl ?rest" and P: "?P (hd ?rest)" by auto
  have ne: "?rest \<noteq> []" using ex by (simp add: dropWhile_eq_Nil_conv)
  have prefree: "\<forall>l \<in> set ?pre. \<not> ?P l" by (auto dest: set_takeWhileD)
  have c0: "\<not> truthyOpt (capturedSessionId ?st0)" using new by (simp add: spawnRegister_fields)
  have tr: "truthy (sessionIdOf parse (hd ?rest))"
    using P by (rule carries_truthy)
  have "foldl (handleLine parse inputSessionId (processKeyOf inputSessionId nowStr) proc) ?st0 ?ls
          = foldl (handleLine parse inputSessionId (processKeyOf inputSessionId nowStr) proc) ?st0
              (?pre @ hd ?rest # tl ?rest)"
    using dec by simp
  also have "\<dots> = (let st1 = captureSessionId inputSessionId (processKeyOf inputSessionId nowStr) proc
                                (sessionIdOf parse (hd ?rest))
                                (?st0\<lparr> sent := sent ?st0 @ map (plainFrame parse) ?pre \<rparr>)
                   in st1\<lparr> sent := sent st1 @ plainFrame parse (hd ?rest)
                                       # map (plainFrame parse) (tl ?rest) \<rparr>)"
    by (rule foldl_handleLine_capture [OF c0 prefree P])
  also have "\<dots> = \<lparr> capturedSessionId = Some (sessionIdOf parse (hd ?rest)), sessionCreatedSent = True,
                   activeClaudeProcesses = (procs(processKeyOf inputSessionId nowStr := None))
                                             (sessionIdOf parse (hd ?rest) \<mapsto> proc),
                   sent = map (plainFrame parse) ?pre @ SessionCreated (sessionIdOf parse (hd ?rest))
                            # map (plainFrame parse) ?rest \<rparr>"
  proof -
    have m: "plainFrame parse (hd ?rest) # map (plainFrame parse) (tl ?rest)
               = map (plainFrame parse) ?rest"
      using ne by (cases ?rest) simp_all
    show ?thesis
      using new tr
      by (auto simp: captureSessionId_def Let_def spawnRegister_def m simp del: map_eq_conv)
  qed
  finally show ?thesis
    by (simp add: runInvocation_def runStdout_lines Let_def)
qed

text \<open>
  C7, amended. An invocation started with a known session id never emits a session-created
  frame. One started without, whose stdout carries at least one parsed object with a
  \<open>session_id\<close>, emits exactly one; it carries the first such id, and it stands directly
  before the response frame of the object that carried it: every frame before it comes from
  a line with no \<open>session_id\<close>, so it precedes the first response frame carrying a session
  id, not the first response frame of the sequence.
\<close>

theorem session_created_once:
  "(truthyOpt inputSessionId \<longrightarrow>
      filter isSessionCreated (sent (runInvocation parse inputSessionId nowStr proc procs chunks)) = [])
   \<and> (\<not> truthyOpt inputSessionId
        \<and> (\<exists>l \<in> set (concat (map stdoutLines chunks)). carriesSessionId parse l) \<longrightarrow>
      (let ls = concat (map stdoutLines chunks);
           pre = takeWhile (\<lambda>l. \<not> carriesSessionId parse l) ls;
           rest = dropWhile (\<lambda>l. \<not> carriesSessionId parse l) ls;
           c = sessionIdOf parse (hd rest);
           frames = sent (runInvocation parse inputSessionId nowStr proc procs chunks)
       in filter isSessionCreated frames = [SessionCreated c]
          \<and> frames = map (plainFrame parse) pre @ SessionCreated c # map (plainFrame parse) rest
          \<and> rest \<noteq> [] \<and> carriesSessionId parse (hd rest)))"
proof (intro conjI impI)
  assume "truthyOpt inputSessionId"
  then show "filter isSessionCreated (sent (runInvocation parse inputSessionId nowStr proc procs chunks)) = []"
    by (simp add: runInvocation_known filter_created_plain)
next
  assume a: "\<not> truthyOpt inputSessionId
        \<and> (\<exists>l \<in> set (concat (map stdoutLines chunks)). carriesSessionId parse l)"
  let ?ls = "concat (map stdoutLines chunks)"
  let ?rest = "dropWhile (\<lambda>l. \<not> carriesSessionId parse l) ?ls"
  have ne: "?rest \<noteq> []" using a by (simp add: dropWhile_eq_Nil_conv)
  then have P: "carriesSessionId parse (hd ?rest)" using hd_dropWhile by blast
  show "(let ls = concat (map stdoutLines chunks);
           pre = takeWhile (\<lambda>l. \<not> carriesSessionId parse l) ls;
           rest = dropWhile (\<lambda>l. \<not> carriesSessionId parse l) ls;
           c = sessionIdOf parse (hd rest);
           frames = sent (runInvocation parse inputSessionId nowStr proc procs chunks)
       in filter isSessionCreated frames = [SessionCreated c]
          \<and> frames = map (plainFrame parse) pre @ SessionCreated c # map (plainFrame parse) rest
          \<and> rest \<noteq> [] \<and> carriesSessionId parse (hd rest))"
    using a ne P
    by (simp add: runInvocation_new Let_def filter_created_plain isSessionCreated_def
        del: map_eq_conv)
qed


lemma stdoutLines_example1:
  \<open>stdoutLines exampleChunk1 = [''{"session_id":"abc","type":"assistant"}'']\<close>
  by (simp add: exampleChunk1_def stdoutLines_def trim_def isWhitespace_def truthy_def)

lemma stdoutLines_example2:
  \<open>stdoutLines exampleChunk2
     = [''{"type":"system"}'', ''{"session_id":"abc","type":"assistant"}'']\<close>
  by (simp add: exampleChunk2_def stdoutLines_def trim_def isWhitespace_def truthy_def)

text \<open>
  C7 at the new-session scenario: one line with \<open>session_id\<close> \<open>abc\<close> gives session-created,
  then the response; the same stream on a resumed session gives no session-created frame.
\<close>

theorem session_created_once_witness:
  \<open>sent (runInvocation exampleParse None ''1700000000000'' 7 Map.empty
           [exampleChunk1])
     = [SessionCreated ''abc'',
        ClaudeResponse \<lparr> session_id = Some ''abc'',
                         body = ''{"session_id":"abc","type":"assistant"}'' \<rparr>]
   \<and> filter isSessionCreated
         (sent (runInvocation exampleParse (Some ''abc'') ''1700000000000'' 7 Map.empty
                  [exampleChunk1])) = []\<close>
proof
  show \<open>sent (runInvocation exampleParse None ''1700000000000'' 7 Map.empty
           [exampleChunk1])
     = [SessionCreated ''abc'',
        ClaudeResponse \<lparr> session_id = Some ''abc'',
                         body = ''{"session_id":"abc","type":"assistant"}'' \<rparr>]\<close>
    using session_created_once [of None exampleParse "''1700000000000''" 7 Map.empty
        "[exampleChunk1]"]
    by (simp add: stdoutLines_example1 Let_def carriesSessionId_def sessionIdOf_def plainFrame_def
        exampleParse_def truthyOpt_def truthy_def)
next
  show \<open>filter isSessionCreated
         (sent (runInvocation exampleParse (Some ''abc'') ''1700000000000'' 7 Map.empty
                  [exampleChunk1])) = []\<close>
    using session_created_once [of "Some ''abc''" exampleParse "''1700000000000''" 7 Map.empty
        "[exampleChunk1]"]
    by (simp add: truthyOpt_def truthy_def)
qed

text \<open>
  C7 as stated fails: when a parsed object without \<open>session_id\<close> comes first, its response
  frame is sent before the session-created frame.
\<close>

theorem session_created_after_response_counterexample:
  \<open>\<not> sessionCreatedPrecedesResponses
       (sent (runInvocation exampleParse None ''1700000000000'' 7 Map.empty
                [exampleChunk2]))\<close>
proof -
  have \<open>sent (runInvocation exampleParse None ''1700000000000'' 7 Map.empty
                [exampleChunk2])
        = [ClaudeResponse \<lparr> session_id = None, body = ''{"type":"system"}'' \<rparr>,
           SessionCreated ''abc'',
           ClaudeResponse \<lparr> session_id = Some ''abc'',
                            body = ''{"session_id":"abc","type":"assistant"}'' \<rparr>]\<close>
    by (simp add: runInvocation_def runStdout_def onStdoutData_def stdoutLines_example2
        handleLine_def captureSessionId_def spawnRegister_def processKeyOf_def exampleParse_def
        truthyOpt_def truthy_def Let_def)
  then show ?thesis
    by (simp add: sessionCreatedPrecedesResponses_def isSessionCreated_def isClaudeResponse_def)
qed

section \<open>Properties of the live-process map\<close>

lemma abortRepeatedly_absent:
  "procs sid = None \<Longrightarrow> abortRepeatedly n procs sid = replicate n False"
  by (induction n) (simp_all add: abortClaudeSession_def)

lemma abortRepeatedly_present:
  "procs sid = Some p \<Longrightarrow> abortRepeatedly (Suc n) procs sid = True # replicate n False"
  by (simp add: abortClaudeSession_def abortRepeatedly_absent)




section \<open>Properties of the argument assembly\<close>

lemma checkMcpConfig_declares:
  "checkMcpConfig claudeConfigPath cfg processCwd
     = (if declaresServer cfg processCwd then Some claudeConfigPath else None)"
  by (cases cfg)
     (auto simp: checkMcpConfig_def declaresServer_def existsSync_def Let_def projectServers_def
           hasKeys_def split: option.splits)

lemma foldl_push_flag:
  "foldl (\<lambda>acc tool. acc @ [flag, tool]) args tools = args @ flagPerTool flag tools"
  by (induction tools arbitrary: args) (simp_all add: flagPerTool_def)

lemma foldl_merge_tools:
  "distinct tools \<Longrightarrow>
   foldl (\<lambda>acc tool. if tool \<notin> set acc then acc @ [tool] else acc) allowed tools
     = allowed @ filter (\<lambda>tool. tool \<notin> set allowed) tools"
proof (induction tools arbitrary: allowed)
  case Nil
  then show ?case by simp
next
  case (Cons t tools)
  have "filter (\<lambda>tool. tool \<noteq> t \<and> tool \<notin> set allowed) tools
          = filter (\<lambda>tool. tool \<notin> set allowed) tools"
    using Cons.prems by (intro filter_cong) auto
  with Cons show ?case by simp
qed

lemma distinct_planModeTools: "distinct planModeTools"
  by (simp add: planModeTools_def)



section \<open>Properties of splitting and joining lines\<close>

lemma splitNl_nonempty: "splitNl s \<noteq> []"
  by (induction s) (auto split: list.splits)

lemma splitNl_no_newline: "l \<in> set (splitNl s) \<Longrightarrow> CHR 0x0A \<notin> set l"
proof (induction s arbitrary: l)
  case Nil
  then show ?case by simp
next
  case (Cons c s)
  then show ?case
    by (cases "splitNl s") (auto split: if_splits)
qed

lemma splitNl_append_newline:
  "CHR 0x0A \<notin> set l \<Longrightarrow> splitNl (l @ CHR 0x0A # s) = l # splitNl s"
proof (induction l)
  case Nil
  then show ?case by simp
next
  case (Cons c l)
  then have "c \<noteq> CHR 0x0A" and "CHR 0x0A \<notin> set l" by auto
  with Cons.IH show ?case by simp
qed

lemma splitNl_joinNl_newline:
  assumes "\<forall>l \<in> set ls. CHR 0x0A \<notin> set l" and "ls \<noteq> []"
  shows "splitNl (joinNl ls @ [CHR 0x0A]) = ls @ [[]]"
  using assms
proof (induction ls rule: joinNl.induct)
  case 1
  then show ?case by simp
next
  case (2 l)
  then show ?case using splitNl_append_newline [of l "[]"] by simp
next
  case (3 l v va)
  then show ?case using splitNl_append_newline [of l "joinNl (v # va) @ [CHR 0x0A]"] by simp
qed

lemma trim_Nil': "\<not> truthy (trim [])"
  by (simp add: trim_def truthy_def)

lemma contentLines_no_newline: "l \<in> set (contentLines s) \<Longrightarrow> CHR 0x0A \<notin> set l"
  by (auto simp: contentLines_def dest: splitNl_no_newline)

lemma contentLines_nonblank: "l \<in> set (contentLines s) \<Longrightarrow> truthy (trim l)"
  by (simp add: contentLines_def)

lemma contentLines_joinNl:
  assumes "\<forall>l \<in> set ls. CHR 0x0A \<notin> set l \<and> truthy (trim l)" and "ls \<noteq> []"
  shows "contentLines (joinNl ls @ [CHR 0x0A]) = ls"
proof -
  have "filter (\<lambda>line. truthy (trim line)) ls = ls" using assms by (simp add: filter_id_conv)
  then show ?thesis
    using assms by (simp add: contentLines_def splitNl_joinNl_newline trim_Nil')
qed

lemma contentLines_Nil: "contentLines [] = []"
  by (simp add: contentLines_def trim_Nil')

lemma contentLines_newContent:
  "contentLines (newContent parseLine sid s) = filter (keepLine parseLine sid) (contentLines s)"
proof (cases "filter (keepLine parseLine sid) (contentLines s) = []")
  case True
  then show ?thesis by (simp add: newContent_def contentLines_Nil)
next
  case False
  have "\<forall>l \<in> set (filter (keepLine parseLine sid) (contentLines s)).
          CHR 0x0A \<notin> set l \<and> truthy (trim l)"
    by (auto dest: contentLines_no_newline contentLines_nonblank)
  from contentLines_joinNl [OF this False] False show ?thesis
    by (simp add: newContent_def Let_def)
qed

lemma newContent_trailing_newline:
  "newContent parseLine sid s \<noteq> [] \<Longrightarrow> last (newContent parseLine sid s) = CHR 0x0A"
  by (simp add: newContent_def Let_def split: if_splits)


section \<open>Properties of deleteSession\<close>

lemma update_as_map:
  assumes "distinct (map fst al)" and "k \<in> fst ` set al"
  shows "AList.update k v al = map (\<lambda>(k', v'). if k' = k then (k, v) else (k', v')) al"
  using assms
proof (induction al)
  case Nil
  then show ?case by simp
next
  case (Cons p al)
  show ?case
  proof (cases "fst p = k")
    case True
    then have "k \<notin> fst ` set al" using Cons.prems(1) by auto
    then have "map (\<lambda>(k', v'). if k' = k then (k, v) else (k', v')) al = al"
      by (intro map_idI) (auto simp: image_iff)
    with True show ?thesis by (cases p) simp
  next
    case False
    then have "k \<in> fst ` set al" using Cons.prems(2) by auto
    with Cons False show ?thesis by (cases p) simp
  qed
qed

lemma deleteSessionLoop_map:
  assumes "distinct (map fst dir)" and "distinct files" and "set files \<subseteq> fst ` set dir"
  shows "deleteSessionLoop parseLine sid files found dir
           = (Inr (found \<or> (\<exists>(n, c) \<in> set dir. n \<in> set files \<and> hasSession parseLine sid c)),
              map (\<lambda>(n, c). if n \<in> set files \<and> hasSession parseLine sid c
                              then (n, newContent parseLine sid c) else (n, c)) dir)"
  using assms
proof (induction files arbitrary: found dir)
  case Nil
  then show ?case by (simp add: case_prod_unfold)
next
  case (Cons f files)
  from Cons.prems obtain c where fc: "(f, c) \<in> set dir" by auto
  with Cons.prems(1) have rd: "readFile dir f = Some c" by (simp add: readFile_def)
  have uniq: "c' = c" if "(f, c') \<in> set dir" for c'
    using that fc Cons.prems(1) by (meson eq_key_imp_eq_value)
  have fnot: "f \<notin> set files" and dfiles: "distinct files" and sub: "set files \<subseteq> fst ` set dir"
    using Cons.prems by auto
  show ?case
  proof (cases "hasSession parseLine sid c")
    case True
    let ?dir' = "writeFile dir f (newContent parseLine sid c)"
    have dir': "?dir' = map (\<lambda>(k', v'). if k' = f then (f, newContent parseLine sid c) else (k', v')) dir"
      unfolding writeFile_def using Cons.prems(1) fc
      by (intro update_as_map) force+
    have keys: "map fst ?dir' = map fst dir"
      unfolding dir' by (simp add: case_prod_unfold comp_def)
    have d1: "distinct (map fst ?dir')" using keys Cons.prems(1) by simp
    have s1: "set files \<subseteq> fst ` set ?dir'"
      using sub keys by (metis list.set_map)
    have IH: "deleteSessionLoop parseLine sid files True ?dir'
                = (Inr (True \<or> (\<exists>(n, c) \<in> set ?dir'. n \<in> set files \<and> hasSession parseLine sid c)),
                   map (\<lambda>(n, c). if n \<in> set files \<and> hasSession parseLine sid c
                                   then (n, newContent parseLine sid c) else (n, c)) ?dir')"
      by (rule Cons.IH [OF d1 dfiles s1])
    have m: "map (\<lambda>(n, c). if n \<in> set files \<and> hasSession parseLine sid c
                             then (n, newContent parseLine sid c) else (n, c)) ?dir'
             = map (\<lambda>(n, c). if n \<in> set (f # files) \<and> hasSession parseLine sid c
                               then (n, newContent parseLine sid c) else (n, c)) dir"
      unfolding dir' using fnot True uniq by (auto simp: case_prod_unfold)
    have ex: "\<exists>(n, c) \<in> set dir. n \<in> set (f # files) \<and> hasSession parseLine sid c"
      using fc True by auto
    show ?thesis
      using rd True IH m ex by simp
  next
    case False
    have IH: "deleteSessionLoop parseLine sid files found dir
                = (Inr (found \<or> (\<exists>(n, c) \<in> set dir. n \<in> set files \<and> hasSession parseLine sid c)),
                   map (\<lambda>(n, c). if n \<in> set files \<and> hasSession parseLine sid c
                                   then (n, newContent parseLine sid c) else (n, c)) dir)"
      by (rule Cons.IH [OF Cons.prems(1) dfiles sub])
    have m: "map (\<lambda>(n, c). if n \<in> set files \<and> hasSession parseLine sid c
                             then (n, newContent parseLine sid c) else (n, c)) dir
             = map (\<lambda>(n, c). if n \<in> set (f # files) \<and> hasSession parseLine sid c
                               then (n, newContent parseLine sid c) else (n, c)) dir"
      using False uniq by (auto simp: case_prod_unfold)
    have ex: "(\<exists>(n, c) \<in> set dir. n \<in> set (f # files) \<and> hasSession parseLine sid c)
              \<longleftrightarrow> (\<exists>(n, c) \<in> set dir. n \<in> set files \<and> hasSession parseLine sid c)"
      using False uniq by auto
    show ?thesis
      using rd False IH m ex by simp
  qed
qed


lemma hasSession_newContent_differs:
  assumes "hasSession parseLine sid c"
  shows "newContent parseLine sid c \<noteq> c"
proof
  assume eq: "newContent parseLine sid c = c"
  from assms obtain l where l: "l \<in> set (contentLines c)" "lineHasSession parseLine sid l"
    by (auto simp: hasSession_def list_ex_iff)
  then have "\<not> keepLine parseLine sid l"
    by (auto simp: lineHasSession_def keepLine_def split: option.splits)
  then have "l \<notin> set (filter (keepLine parseLine sid) (contentLines c))" by simp
  then have "l \<notin> set (contentLines (newContent parseLine sid c))"
    by (simp add: contentLines_newContent)
  with l(1) eq show False by simp
qed

lemma deleteSession_eq:
  assumes "distinct (map fst dir)"
  shows "deleteSession parseLine (Some dir) sid
           = (if \<exists>(n, c) \<in> set dir. isJsonl n \<and> hasSession parseLine sid c
              then (Inr (),
                    Some (map (\<lambda>(n, c). if isJsonl n \<and> hasSession parseLine sid c
                                         then (n, newContent parseLine sid c) else (n, c)) dir))
              else (Inl (Error (if filter isJsonl (map fst dir) = []
                                then ''No session files found for this project''
                                else ''Session '' @ sid @ '' not found in any files'')),
                    Some dir))"
proof (cases "filter isJsonl (map fst dir) = []")
  case True
  then have "\<not> (\<exists>(n, c) \<in> set dir. isJsonl n \<and> hasSession parseLine sid c)"
    by (auto simp: filter_empty_conv)
  with True show ?thesis by (simp add: deleteSession_def)
next
  case False
  let ?files = "filter isJsonl (map fst dir)"
  have d: "distinct ?files" using assms by simp
  have sub: "set ?files \<subseteq> fst ` set dir" by auto
  have loop: "deleteSessionLoop parseLine sid ?files False dir
           = (Inr (False \<or> (\<exists>(n, c) \<in> set dir. n \<in> set ?files \<and> hasSession parseLine sid c)),
              map (\<lambda>(n, c). if n \<in> set ?files \<and> hasSession parseLine sid c
                              then (n, newContent parseLine sid c) else (n, c)) dir)"
    by (rule deleteSessionLoop_map [OF assms d sub])
  have mem: "n \<in> set ?files \<longleftrightarrow> isJsonl n" if "(n, c) \<in> set dir" for n c
    using that by force
  have ex: "(\<exists>(n, c) \<in> set dir. n \<in> set ?files \<and> hasSession parseLine sid c)
            \<longleftrightarrow> (\<exists>(n, c) \<in> set dir. isJsonl n \<and> hasSession parseLine sid c)"
    by (intro bex_cong refl) (auto simp: mem simp del: set_filter)
  have m: "map (\<lambda>(n, c). if n \<in> set ?files \<and> hasSession parseLine sid c
                            then (n, newContent parseLine sid c) else (n, c)) dir
           = map (\<lambda>(n, c). if isJsonl n \<and> hasSession parseLine sid c
                             then (n, newContent parseLine sid c) else (n, c)) dir"
    by (intro map_cong refl) (auto simp: mem simp del: set_filter)
  have unchanged: "map (\<lambda>(n, c). if isJsonl n \<and> hasSession parseLine sid c
                             then (n, newContent parseLine sid c) else (n, c)) dir = dir"
    if "\<not> (\<exists>(n, c) \<in> set dir. isJsonl n \<and> hasSession parseLine sid c)"
    using that by (intro map_idI) auto
  show ?thesis
    using False unchanged
    by (simp add: deleteSession_def Let_def loop ex m del: set_filter)
qed

text \<open>
  C5. On an alias directory (file names distinct), \<open>deleteSession\<close> succeeds exactly when
  some \<open>.jsonl\<close> file holds a parseable non-blank line with the target \<open>sessionId\<close>; it then
  rewrites those files and no others. A rewritten file differs from the original; its
  non-blank lines are the original's without the target's lines, in order, so every line
  that does not parse is kept as it was; if anything remains, the file ends with a line feed.
  When no file holds the session the call fails and the directory is what it was before;
  on a directory that does not exist it fails as well.
\<close>

theorem deleteSession_rewrites:
  "(distinct (map fst dir) \<longrightarrow>
      deleteSession parseLine (Some dir) sid
        = (if \<exists>(n, c) \<in> set dir. isJsonl n \<and> hasSession parseLine sid c
           then (Inr (),
                 Some (map (\<lambda>(n, c). if isJsonl n \<and> hasSession parseLine sid c
                                      then (n, newContent parseLine sid c) else (n, c)) dir))
           else (Inl (Error (if filter isJsonl (map fst dir) = []
                             then ''No session files found for this project''
                             else ''Session '' @ sid @ '' not found in any files'')),
                 Some dir)))
   \<and> deleteSession parseLine None sid = (Inl ENOENT, None)
   \<and> (hasSession parseLine sid c \<longleftrightarrow>
        (\<exists>l \<in> set (contentLines c). \<exists>d. parseLine l = Some d \<and> entrySessionId d = Some sid))
   \<and> (hasSession parseLine sid c \<longrightarrow> newContent parseLine sid c \<noteq> c)
   \<and> contentLines (newContent parseLine sid c)
        = filter (\<lambda>l. \<not> (\<exists>d. parseLine l = Some d \<and> entrySessionId d = Some sid)) (contentLines c)
   \<and> (newContent parseLine sid c \<noteq> [] \<longrightarrow> last (newContent parseLine sid c) = CHR 0x0A)"
proof (intro conjI impI)
  assume "distinct (map fst dir)"
  then show "deleteSession parseLine (Some dir) sid
        = (if \<exists>(n, c) \<in> set dir. isJsonl n \<and> hasSession parseLine sid c
           then (Inr (),
                 Some (map (\<lambda>(n, c). if isJsonl n \<and> hasSession parseLine sid c
                                      then (n, newContent parseLine sid c) else (n, c)) dir))
           else (Inl (Error (if filter isJsonl (map fst dir) = []
                             then ''No session files found for this project''
                             else ''Session '' @ sid @ '' not found in any files'')),
                 Some dir))"
    by (rule deleteSession_eq)
next
  show "deleteSession parseLine None sid = (Inl ENOENT, None)"
    by (simp add: deleteSession_def)
next
  show "hasSession parseLine sid c \<longleftrightarrow>
        (\<exists>l \<in> set (contentLines c). \<exists>d. parseLine l = Some d \<and> entrySessionId d = Some sid)"
    by (auto simp: hasSession_def list_ex_iff lineHasSession_def split: option.splits)
next
  assume "hasSession parseLine sid c"
  then show "newContent parseLine sid c \<noteq> c" by (rule hasSession_newContent_differs)
next
  have "keepLine parseLine sid = (\<lambda>l. \<not> (\<exists>d. parseLine l = Some d \<and> entrySessionId d = Some sid))"
    by (auto simp: keepLine_def fun_eq_iff split: option.splits)
  then show "contentLines (newContent parseLine sid c)
        = filter (\<lambda>l. \<not> (\<exists>d. parseLine l = Some d \<and> entrySessionId d = Some sid)) (contentLines c)"
    by (simp add: contentLines_newContent)
next
  assume "newContent parseLine sid c \<noteq> []"
  then show "last (newContent parseLine sid c) = CHR 0x0A"
    by (rule newContent_trailing_newline)
qed

lemma contentLines_exampleLogA: \<open>contentLines exampleLogA = [''{"sessionId":"y"}'']\<close>
  by (simp add: exampleLogA_def contentLines_def trim_def isWhitespace_def truthy_def)

lemma contentLines_exampleLogB:
  \<open>contentLines exampleLogB
     = [''{"sessionId":"x"}'', ''{not json'', ''{"sessionId":"y"}'', ''{"sessionId":"x"}'']\<close>
  by (simp add: exampleLogB_def contentLines_def trim_def isWhitespace_def truthy_def)

lemma example_hasSession:
  "hasSession exampleParseLine ''x'' exampleLogB"
  "\<not> hasSession exampleParseLine ''x'' exampleLogA"
  "\<not> hasSession exampleParseLine ''nope'' exampleLogB"
  "\<not> hasSession exampleParseLine ''nope'' exampleLogA"
  by (simp_all add: hasSession_def contentLines_exampleLogA contentLines_exampleLogB
      lineHasSession_def exampleParseLine_def)

lemma example_newContent:
  \<open>newContent exampleParseLine ''x'' exampleLogB
     = ''{not json'' @ [CHR 0x0A] @ ''{"sessionId":"y"}'' @ [CHR 0x0A]\<close>
  by (simp add: newContent_def contentLines_exampleLogB keepLine_def exampleParseLine_def)

lemma example_isJsonl: "isJsonl ''a.jsonl''" "isJsonl ''b.jsonl''" "\<not> isJsonl ''notes.txt''"
  by (simp_all add: isJsonl_def endsWith_def suffix_to_prefix)

text \<open>
  C5 on the example directory: deleting \<open>x\<close> rewrites \<open>b.jsonl\<close> to its two other lines, the
  unparsable one included, and leaves the other files alone; deleting \<open>nope\<close> fails and
  leaves the directory as it was.
\<close>

theorem deleteSession_rewrites_witness:
  \<open>deleteSession exampleParseLine (Some exampleDir) ''x''
     = (Inr (), Some [(''a.jsonl'', exampleLogA),
                      (''b.jsonl'', ''{not json'' @ [CHR 0x0A] @ ''{"sessionId":"y"}'' @ [CHR 0x0A]),
                      (''notes.txt'', ''x'')])
   \<and> deleteSession exampleParseLine (Some exampleDir) ''nope''
       = (Inl (Error ''Session nope not found in any files''), Some exampleDir)\<close>
proof -
  have d: "distinct (map fst exampleDir)" by (simp add: exampleDir_def)
  have one: \<open>deleteSession exampleParseLine (Some exampleDir) ''x''
     = (Inr (), Some [(''a.jsonl'', exampleLogA),
                      (''b.jsonl'', ''{not json'' @ [CHR 0x0A] @ ''{"sessionId":"y"}'' @ [CHR 0x0A]),
                      (''notes.txt'', ''x'')])\<close>
    using deleteSession_rewrites [of exampleDir exampleParseLine "''x''" "[]"] d
    by (simp add: exampleDir_def example_hasSession example_isJsonl example_newContent)
  have two: "deleteSession exampleParseLine (Some exampleDir) ''nope''
       = (Inl (Error ''Session nope not found in any files''), Some exampleDir)"
    using deleteSession_rewrites [of exampleDir exampleParseLine "''nope''" "[]"] d
    by (simp add: exampleDir_def example_hasSession example_isJsonl)
  from one two show ?thesis by blast
qed

section \<open>Properties of the alias resolution\<close>

lemma scanLine_occurrence:
  "scanLine parseLine st line
     = (case lineOccurrence parseLine line of None \<Rightarrow> st | Some occ \<Rightarrow> recordOccurrence st occ)"
  by (simp add: scanLine_def lineOccurrence_def recordOccurrence_def truthy_def Let_def
      split: option.splits)

lemma foldl_scanLine:
  "foldl (scanLine parseLine) st ls
     = foldl recordOccurrence st (List.map_filter (lineOccurrence parseLine) ls)"
  by (induction ls arbitrary: st)
     (simp_all add: scanLine_occurrence map_filter_simps split: option.splits)

lemma map_filter_append: "List.map_filter f (xs @ ys) = List.map_filter f xs @ List.map_filter f ys"
  by (simp add: map_filter_def)

lemma foldl_scanFiles:
  "foldl (\<lambda>st (name, fileContent). foldl (scanLine parseLine) st (readLines fileContent)) st files
     = foldl recordOccurrence st
         (List.map_filter (lineOccurrence parseLine)
            (concat (map (\<lambda>(name, fileContent). readLines fileContent) files)))"
proof (induction files arbitrary: st)
  case Nil
  then show ?case by (simp add: map_filter_simps)
next
  case (Cons f files)
  obtain name fileContent where f: "f = (name, fileContent)" by (cases f)
  show ?case
    unfolding foldl_Cons Cons.IH
    by (simp add: f foldl_scanLine map_filter_append)
qed

lemma scanFiles_occurrences:
  "scanFiles parseLine (filter (\<lambda>(name, _). isJsonl name) dir)
     = foldl recordOccurrence initialScan (cwdOccurrences parseLine dir)"
  by (simp add: scanFiles_def cwdOccurrences_def foldl_scanFiles)

lemma cwdOccurrences_truthy: "(c, t) \<in> set (cwdOccurrences parseLine dir) \<Longrightarrow> c \<noteq> []"
  by (auto simp: cwdOccurrences_def map_filter_def lineOccurrence_def split: option.splits if_splits)



lemma find_append:
  "find P (xs @ ys) = (case find P xs of None \<Rightarrow> find P ys | Some x \<Rightarrow> Some x)"
  by (induction xs) simp_all

lemma find_map: "find P (map f xs) = map_option f (find (P \<circ> f) xs)"
  by (induction xs) simp_all

lemma cwdCounts_recordOccurrence:
  "cwdCounts (recordOccurrence st occ)
     = AList.update (fst occ) (countOf (cwdCounts st) (fst occ) + 1) (cwdCounts st)"
  by (simp add: recordOccurrence_def Let_def split: option.splits)

lemma scan_counts:
  "map_of (cwdCounts (foldl recordOccurrence initialScan occ)) c
     = (if c \<in> fst ` set occ then Some (occurrenceCount occ c) else None)"
proof (induction occ arbitrary: c rule: rev_induct)
  case Nil
  then show ?case by (simp add: initialScan_def)
next
  case (snoc x occ)
  let ?st = "foldl recordOccurrence initialScan occ"
  have cnt: "countOf (cwdCounts ?st) (fst x) = occurrenceCount occ (fst x)"
    by (simp add: countOf_def snoc.IH occurrenceCount_def count_list_0_iff)
  show ?case
    by (auto simp: cwdCounts_recordOccurrence update_conv' cnt snoc.IH occurrenceCount_def)
qed

lemma scan_countOf:
  "countOf (cwdCounts (foldl recordOccurrence initialScan occ)) c = occurrenceCount occ c"
  by (auto simp: countOf_def scan_counts occurrenceCount_def image_iff
      split: option.splits)

lemma scan_keys_set:
  "set (map fst (cwdCounts (foldl recordOccurrence initialScan occ))) = fst ` set occ"
proof -
  have "dom (map_of (cwdCounts (foldl recordOccurrence initialScan occ))) = fst ` set occ"
    by (auto simp: scan_counts dom_def)
  then show ?thesis by (simp add: dom_map_of_conv_image_fst)
qed

lemma scan_keys_distinct:
  "distinct (map fst (cwdCounts (foldl recordOccurrence initialScan occ)))"
  by (induction occ rule: rev_induct)
     (simp_all add: initialScan_def cwdCounts_recordOccurrence distinct_update)

lemma scan_keys_find:
  "find P (map fst (cwdCounts (foldl recordOccurrence initialScan occ))) = find P (map fst occ)"
proof (induction occ rule: rev_induct)
  case Nil
  then show ?case by (simp add: initialScan_def)
next
  case (snoc x occ)
  let ?al = "cwdCounts (foldl recordOccurrence initialScan occ)"
  show ?case
  proof (cases "fst x \<in> fst ` set occ")
    case True
    then have k: "fst x \<in> set (map fst ?al)" using scan_keys_set [of occ] by simp
    have mem: "fst x \<in> set (map fst occ)" using True by simp
    have "find P (map fst occ) \<noteq> None" if "P (fst x)"
      using that mem by (auto simp: find_None_iff simp del: set_map)
    then show ?thesis
      using k snoc.IH
      by (auto simp: cwdCounts_recordOccurrence update_keys find_append split: option.splits)
  next
    case False
    then have k: "fst x \<notin> set (map fst ?al)" using scan_keys_set [of occ] by simp
    show ?thesis
      using k snoc.IH
      by (simp add: cwdCounts_recordOccurrence update_keys find_append)
  qed
qed


lemma set_map_filter_snd: "set (List.map_filter snd occ) = {t. \<exists>c. (c, Some t) \<in> set occ}"
  by (auto simp: map_filter_def image_iff) force

lemma latestTime_nonneg: "0 \<le> latestTime occ"
  by (simp add: latestTime_def)

lemma latestTime_ge:
  assumes "(c, Some t) \<in> set occ"
  shows "t \<le> latestTime occ"
proof -
  have "t \<in> set (0 # List.map_filter snd occ)"
    using assms by (auto simp: set_map_filter_snd)
  then show ?thesis unfolding latestTime_def by (intro Max_ge finite_set)
qed

lemma latestTime_attained:
  assumes "0 < latestTime occ"
  shows "\<exists>c. (c, Some (latestTime occ)) \<in> set occ"
proof -
  have "latestTime occ \<in> set (0 # List.map_filter snd occ)"
    unfolding latestTime_def by (intro Max_in) simp_all
  with assms show ?thesis by (auto simp: set_map_filter_snd)
qed

lemma latestTime_snoc:
  "latestTime (occ @ [(c, t)])
     = (case t of None \<Rightarrow> latestTime occ | Some t' \<Rightarrow> max t' (latestTime occ))"
proof (cases t)
  case None
  then show ?thesis by (simp add: latestTime_def map_filter_append map_filter_simps)
next
  case (Some t')
  have "Max (insert t' (set (0 # List.map_filter snd occ)))
          = max t' (Max (set (0 # List.map_filter snd occ)))"
    by (intro Max_insert) simp_all
  with Some show ?thesis
    by (simp add: latestTime_def map_filter_append map_filter_simps insert_commute)
qed

lemma latestTimestamp_recordOccurrence:
  "latestTimestamp (recordOccurrence st occ)
     = (case snd occ of None \<Rightarrow> latestTimestamp st
        | Some t \<Rightarrow> if t > latestTimestamp st then t else latestTimestamp st)"
  by (simp add: recordOccurrence_def Let_def split: option.splits)

lemma latestCwd_recordOccurrence:
  "latestCwd (recordOccurrence st occ)
     = (case snd occ of None \<Rightarrow> latestCwd st
        | Some t \<Rightarrow> if t > latestTimestamp st then Some (fst occ) else latestCwd st)"
  by (simp add: recordOccurrence_def Let_def split: option.splits)

lemma scan_latest:
  "latestTimestamp (foldl recordOccurrence initialScan occ) = latestTime occ
   \<and> latestCwd (foldl recordOccurrence initialScan occ) = latestCwdOf occ"
proof (induction occ rule: rev_induct)
  case Nil
  then show ?case by (simp add: initialScan_def latestTime_def latestCwdOf_def map_filter_simps)
next
  case (snoc x occ)
  obtain c t where x: "x = (c, t)" by (cases x)
  let ?st = "foldl recordOccurrence initialScan occ"
  let ?L = "latestTime occ"
  have ts: "latestTimestamp ?st = ?L" and lc: "latestCwd ?st = latestCwdOf occ"
    using snoc.IH by simp_all
  show ?case
  proof (cases t)
    case None
    then show ?thesis
      by (simp add: x latestTimestamp_recordOccurrence latestCwd_recordOccurrence ts lc
          latestTime_snoc latestCwdOf_def find_append split: option.splits)
  next
    case (Some t')
    show ?thesis
    proof (cases "t' > ?L")
      case True
      then have pos: "0 < t'" using latestTime_nonneg [of occ] by linarith
      have "find (\<lambda>(_, t). t = Some t') occ = None"
        using True latestTime_ge [of _ t' occ] by (auto simp: find_None_iff)
      then show ?thesis
        using True pos
        by (simp add: x Some latestTimestamp_recordOccurrence latestCwd_recordOccurrence ts lc
            latestTime_snoc latestCwdOf_def find_append max_def)
    next
      case False
      then have m: "max t' ?L = ?L" by simp
      have "find (\<lambda>(_, t). t = Some ?L) occ \<noteq> None" if "0 < ?L"
        using latestTime_attained [OF that] by (auto simp: find_None_iff)
      then show ?thesis
        using False
        by (auto simp: x Some latestTimestamp_recordOccurrence latestCwd_recordOccurrence ts lc
            latestTime_snoc latestCwdOf_def find_append m split: option.splits)
    qed
  qed
qed

lemma latestCwdOf_member: "latestCwdOf occ = Some l \<Longrightarrow> l \<in> fst ` set occ"
  by (auto simp: latestCwdOf_def find_Some_iff image_iff split: if_splits) (metis fst_conv nth_mem)

lemma find_via_filter: "find P xs = (case filter P xs of [] \<Rightarrow> None | x # _ \<Rightarrow> Some x)"
  by (induction xs) simp_all

lemma sort_key_head:
  assumes "sort_key f xs = h # rest"
  shows "find (\<lambda>y. f y = f h) xs = Some h" and "\<forall>x \<in> set xs. f h \<le> f x"
proof -
  have "filter (\<lambda>y. f y = f h) xs = filter (\<lambda>y. f y = f h) (sort_key f xs)"
    by (simp add: sort_key_stable)
  also have "\<dots> = h # filter (\<lambda>y. f y = f h) rest" using assms by simp
  finally show "find (\<lambda>y. f y = f h) xs = Some h" by (simp add: find_via_filter)
  have "sorted (map f (sort_key f xs))" by simp
  then have "\<forall>x \<in> set (sort_key f xs). f h \<le> f x" using assms by auto
  then show "\<forall>x \<in> set xs. f h \<le> f x" by simp
qed

lemma maxOccurrenceCount_ge:
  assumes "(c, t) \<in> set occ"
  shows "occurrenceCount occ c \<le> maxOccurrenceCount occ"
proof -
  have "occurrenceCount occ c \<in> set (0 # map (\<lambda>(c, _). occurrenceCount occ c) occ)"
    using assms by (force simp: image_iff)
  then show ?thesis unfolding maxOccurrenceCount_def by (intro Max_ge finite_set)
qed

lemma maxOccurrenceCount_le:
  assumes "\<forall>(c, t) \<in> set occ. occurrenceCount occ c \<le> n"
  shows "maxOccurrenceCount occ \<le> n"
  unfolding maxOccurrenceCount_def using assms by (subst Max_le_iff) auto


lemma remdups_singleton: "set xs = {k} \<Longrightarrow> remdups xs = [k]"
proof -
  assume a: "set xs = {k}"
  have "distinct (remdups xs)" and "set (remdups xs) = {k}" using a by simp_all
  then show ?thesis
    by (metis distinct.simps(2) distinct_singleton empty_iff insert_iff list.exhaust list.set(1)
        list.set_intros(1) list.simps(15) singletonD)
qed

lemma mostFrequent_from_sort:
  assumes srt: "sort_key (\<lambda>(k, n). - int n) (cwdCounts (foldl recordOccurrence initialScan occ))
                  = (m, n) # rest"
  shows "mostFrequentCwd occ = Some m"
proof -
  let ?al = "cwdCounts (foldl recordOccurrence initialScan occ)"
  let ?f = "\<lambda>(k, n :: nat). - int n"
  have val: "n' = occurrenceCount occ k'" if "(k', n') \<in> set ?al" for k' n'
  proof -
    have "map_of ?al k' = Some n'"
      using that scan_keys_distinct [of occ] by simp
    then show ?thesis using scan_countOf [of occ k'] by (simp add: countOf_def)
  qed
  have keys: "k' \<in> fst ` set occ" if "(k', n') \<in> set ?al" for k' n'
    using that scan_keys_set [of occ] by force
  from sort_key_head [OF srt]
  have fnd: "find (\<lambda>y. ?f y = ?f (m, n)) ?al = Some (m, n)"
    and low: "\<forall>x \<in> set ?al. ?f (m, n) \<le> ?f x" by simp_all
  have mem: "(m, n) \<in> set ?al" using fnd by (auto simp: find_Some_iff)
  have nm: "n = occurrenceCount occ m" by (rule val [OF mem])
  have top: "occurrenceCount occ c \<le> n" if "(c, t) \<in> set occ" for c t
  proof -
    have "c \<in> set (map fst ?al)" using that scan_keys_set [of occ] by force
    then obtain n' where "(c, n') \<in> set ?al" by auto
    with low val show ?thesis by fastforce
  qed
  have "maxOccurrenceCount occ \<le> n"
    by (rule maxOccurrenceCount_le) (use top in auto)
  moreover obtain t where "(m, t) \<in> set occ" using keys [OF mem] by auto
  then have "n \<le> maxOccurrenceCount occ" using maxOccurrenceCount_ge nm by simp
  ultimately have mx: "maxOccurrenceCount occ = n" by simp
  have "find (\<lambda>(k', n'). occurrenceCount occ k' = maxOccurrenceCount occ) ?al
          = find (\<lambda>y. ?f y = ?f (m, n)) ?al"
    by (rule find_cong) (auto simp: mx dest: val)
  then have "find ((\<lambda>k'. occurrenceCount occ k' = maxOccurrenceCount occ) \<circ> fst) ?al = Some (m, n)"
    using fnd by (simp add: comp_def case_prod_unfold)
  then have "find (\<lambda>k'. occurrenceCount occ k' = maxOccurrenceCount occ) (map fst ?al) = Some m"
    by (simp add: find_map)
  then have "find (\<lambda>k'. occurrenceCount occ k' = maxOccurrenceCount occ) (map fst occ) = Some m"
    by (simp add: scan_keys_find)
  then show ?thesis
    by (simp add: mostFrequentCwd_def find_map comp_def case_prod_unfold)
qed

lemma chooseCwd_many:
  assumes many: "cwdCounts st = a # b # rest"
    and srt: "sort_key (\<lambda>(k, n). - int n) (cwdCounts st) = (m, n) # rest'"
    and mt: "truthy m"
  shows "chooseCwd projectName st
           = (case latestCwd st of
                None \<Rightarrow> m
              | Some l \<Rightarrow> if truthy l \<and> 3 * countOf (cwdCounts st) m \<le> 10 * countOf (cwdCounts st) l
                          then l else m)"
proof -
  note srt' = srt [unfolded many]
  show ?thesis
    unfolding chooseCwd_def many using srt' mt
    by (simp add: Let_def split: option.splits)
qed

lemma chooseCwd_spec:
  assumes nonempty: "\<forall>(c, t) \<in> set occ. c \<noteq> []"
  shows "chooseCwd projectName (foldl recordOccurrence initialScan occ)
           = specResolvedPath projectName occ"
proof -
  let ?st = "foldl recordOccurrence initialScan occ"
  let ?al = "cwdCounts ?st"
  have keys: "set (map fst ?al) = fst ` set occ" by (rule scan_keys_set)
  have dist: "distinct (map fst ?al)" by (rule scan_keys_distinct)
  have len: "length ?al = length (remdups (map fst occ))"
  proof -
    have "length ?al = card (set (map fst ?al))"
      using dist by (metis distinct_card length_map)
    also have "\<dots> = card (set (map fst occ))" using keys by simp
    also have "\<dots> = length (remdups (map fst occ))" by (simp add: length_remdups_card_conv)
    finally show ?thesis .
  qed
  consider (none) "?al = []" | (one) k n where "?al = [(k, n)]"
    | (many) a b rest where "?al = a # b # rest"
    by (cases ?al rule: remdups_adj.cases) auto
  then show ?thesis
  proof cases
    case none
    then have "remdups (map fst occ) = []" using len by simp
    with none show ?thesis by (simp add: chooseCwd_def specResolvedPath_def)
  next
    case one
    then have "set (map fst occ) = {k}" using keys by simp
    then have r: "remdups (map fst occ) = [k]" by (rule remdups_singleton)
    have "k \<in> set (map fst occ)" using \<open>set (map fst occ) = {k}\<close> by simp
    then have "k \<noteq> []" using nonempty by auto
    with one r show ?thesis by (simp add: chooseCwd_def specResolvedPath_def truthy_def)
  next
    case many
    then have "length (remdups (map fst occ)) \<ge> 2" using len by simp
    then obtain x y zs where r: "remdups (map fst occ) = x # y # zs"
      by (cases "remdups (map fst occ)" rule: remdups_adj.cases) auto
    have "sort_key (\<lambda>(k, n). - int n) ?al \<noteq> []" using many by (metis list.discI set_empty set_sort)
    then obtain m n rest' where srt: "sort_key (\<lambda>(k, n). - int n) ?al = (m, n) # rest'"
      by (cases "sort_key (\<lambda>(k, n). - int n) ?al") auto
    have mf: "mostFrequentCwd occ = Some m" by (rule mostFrequent_from_sort [OF srt])
    have "(m, n) \<in> set ?al" using srt by (metis list.set_intros(1) set_sort)
    then have "m \<in> fst ` set occ" using keys by force
    then have mt: "truthy m" using nonempty by (auto simp: truthy_def)
    have lt: "truthy l" if "latestCwdOf occ = Some l" for l
      using latestCwdOf_member [OF that] nonempty by (auto simp: truthy_def)
    show ?thesis
      unfolding chooseCwd_many [OF many srt mt]
      using scan_latest [of occ] lt
      by (auto simp: specResolvedPath_def r mf scan_countOf split: option.splits)
  qed
qed

lemma extractProjectDirectory_miss:
  assumes "projectDirectoryCache projectName = None"
  shows "extractProjectDirectory parseLine projectDirectoryCache (Some dir) projectName
           = (specResolvedPath projectName (cwdOccurrences parseLine dir),
              projectDirectoryCache(projectName \<mapsto>
                specResolvedPath projectName (cwdOccurrences parseLine dir)))"
proof (cases "filter (\<lambda>(name, _). isJsonl name) dir = []")
  case True
  then have "cwdOccurrences parseLine dir = []"
    by (simp add: cwdOccurrences_def map_filter_simps)
  with True assms show ?thesis
    by (simp add: extractProjectDirectory_def specResolvedPath_def Let_def)
next
  case False
  have "\<forall>(c, t) \<in> set (cwdOccurrences parseLine dir). c \<noteq> []"
    using cwdOccurrences_truthy by fastforce
  from chooseCwd_spec [OF this] False assms show ?thesis
    by (simp add: extractProjectDirectory_def scanFiles_occurrences Let_def)
qed


lemma mostFrequentCwd_max:
  assumes "mostFrequentCwd occ = Some m"
  shows "m \<in> fst ` set occ" and "\<forall>c. occurrenceCount occ c \<le> occurrenceCount occ m"
proof -
  from assms obtain t where mem: "(m, t) \<in> set occ"
    and eq: "occurrenceCount occ m = maxOccurrenceCount occ"
    by (auto simp: mostFrequentCwd_def find_Some_iff) (metis nth_mem)
  show "m \<in> fst ` set occ" using mem by force
  show "\<forall>c. occurrenceCount occ c \<le> occurrenceCount occ m"
  proof
    fix c
    show "occurrenceCount occ c \<le> occurrenceCount occ m"
    proof (cases "c \<in> fst ` set occ")
      case True
      then show ?thesis using maxOccurrenceCount_ge eq by force
    next
      case False
      then have "occurrenceCount occ c = 0" by (simp add: occurrenceCount_def count_list_0_iff)
      then show ?thesis by simp
    qed
  qed
qed

lemma nth_mem_eq: "i < length xs \<Longrightarrow> xs ! i = y \<Longrightarrow> y \<in> set xs"
  by auto

lemma latestCwdOf_latest:
  assumes "latestCwdOf occ = Some l"
  shows "0 < latestTime occ" and "(l, Some (latestTime occ)) \<in> set occ"
    and "\<forall>c t. (c, Some t) \<in> set occ \<longrightarrow> t \<le> latestTime occ"
proof -
  show pos: "0 < latestTime occ" using assms by (simp add: latestCwdOf_def split: if_splits)
  from assms pos obtain x where "find (\<lambda>(_, t). t = Some (latestTime occ)) occ = Some x" "fst x = l"
    by (auto simp: latestCwdOf_def)
  then show "(l, Some (latestTime occ)) \<in> set occ"
    by (cases x) (auto simp: find_Some_iff intro: nth_mem_eq)
  show "\<forall>c t. (c, Some t) \<in> set occ \<longrightarrow> t \<le> latestTime occ"
    using latestTime_ge by blast
qed

text \<open>
  C4. On the first resolution of an alias (nothing cached for it), the path is: the decoded
  alias when no log line of the alias directory carries a \<open>cwd\<close> (in particular with no
  \<open>.jsonl\<close> file, or no directory); the \<open>cwd\<close> when all occurrences name the same one; with
  several distinct ones, the \<open>cwd\<close> of the latest timestamp if ten times its count is at
  least three times the count of the most frequent \<open>cwd\<close>, else the most frequent one. The
  most frequent \<open>cwd\<close> occurs at least as often as every other; the latest one carries a
  positive time that no occurrence exceeds. The path is then cached for the alias.
\<close>

theorem extractProjectDirectory_selection:
  "projectDirectoryCache projectName = None \<longrightarrow>
     (let occ = cwdOccurrences parseLine dir;
          r = fst (extractProjectDirectory parseLine projectDirectoryCache (Some dir) projectName)
      in (occ = [] \<longrightarrow> r = decodeProjectName projectName)
         \<and> (\<forall>c. set (map fst occ) = {c} \<longrightarrow> r = c)
         \<and> (\<forall>m. card (set (map fst occ)) \<ge> 2 \<and> mostFrequentCwd occ = Some m \<longrightarrow>
               (\<forall>c. occurrenceCount occ c \<le> occurrenceCount occ m)
               \<and> (case latestCwdOf occ of
                     None \<Rightarrow> r = m
                   | Some l \<Rightarrow>
                       (l, Some (latestTime occ)) \<in> set occ \<and> 0 < latestTime occ
                       \<and> (\<forall>c t. (c, Some t) \<in> set occ \<longrightarrow> t \<le> latestTime occ)
                       \<and> r = (if 10 * occurrenceCount occ l \<ge> 3 * occurrenceCount occ m
                              then l else m)))
         \<and> (card (set (map fst occ)) \<ge> 2 \<longrightarrow> mostFrequentCwd occ \<noteq> None)
         \<and> r = specResolvedPath projectName occ
         \<and> snd (extractProjectDirectory parseLine projectDirectoryCache (Some dir) projectName)
             = projectDirectoryCache(projectName \<mapsto> r))
     \<and> fst (extractProjectDirectory parseLine projectDirectoryCache None projectName)
         = decodeProjectName projectName"
proof (intro impI)
  assume miss: "projectDirectoryCache projectName = None"
  let ?occ = "cwdOccurrences parseLine dir"
  let ?r = "fst (extractProjectDirectory parseLine projectDirectoryCache (Some dir) projectName)"
  have r: "?r = specResolvedPath projectName ?occ"
    using miss by (simp add: extractProjectDirectory_miss)
  have c: "snd (extractProjectDirectory parseLine projectDirectoryCache (Some dir) projectName)
             = projectDirectoryCache(projectName \<mapsto> ?r)"
    using miss by (simp add: extractProjectDirectory_miss)
  have e: "?r = decodeProjectName projectName" if "?occ = []"
    using that by (simp add: r specResolvedPath_def)
  have o: "?r = c" if "set (map fst ?occ) = {c}" for c
    using remdups_singleton [OF that] by (simp add: r specResolvedPath_def)
  have many: "\<exists>x y zs. remdups (map fst ?occ) = x # y # zs" if "card (set (map fst ?occ)) \<ge> 2"
  proof -
    have "length (remdups (map fst ?occ)) \<ge> 2" using that by (simp add: length_remdups_card_conv)
    then show ?thesis by (cases "remdups (map fst ?occ)" rule: remdups_adj.cases) auto
  qed
  have ne: "mostFrequentCwd ?occ \<noteq> None" if "card (set (map fst ?occ)) \<ge> 2"
  proof -
    from many [OF that] have "?occ \<noteq> []" by auto
    then obtain c t where ct: "(c, t) \<in> set ?occ" by (cases ?occ) auto
    have mx_in: "maxOccurrenceCount ?occ \<in> set (0 # map (\<lambda>(c, _). occurrenceCount ?occ c) ?occ)"
      unfolding maxOccurrenceCount_def by (intro Max_in) simp_all
    have "c \<in> set (map fst ?occ)" using ct by force
    then have "occurrenceCount ?occ c \<noteq> 0"
      by (simp add: occurrenceCount_def count_list_0_iff del: set_map)
    then have pos: "0 < maxOccurrenceCount ?occ" using maxOccurrenceCount_ge [OF ct] by linarith
    from mx_in pos obtain c' t' where ct': "(c', t') \<in> set ?occ"
      and eq: "occurrenceCount ?occ c' = maxOccurrenceCount ?occ" by auto
    have "\<exists>x. x \<in> set ?occ \<and> (case x of (c, _) \<Rightarrow> occurrenceCount ?occ c = maxOccurrenceCount ?occ)"
      using ct' eq by (intro exI [of _ "(c', t')"]) simp
    then have "find (\<lambda>(c, _). occurrenceCount ?occ c = maxOccurrenceCount ?occ) ?occ \<noteq> None"
      by (simp only: find_None_iff not_not)
    then show ?thesis by (simp add: mostFrequentCwd_def)
  qed
  have sev: "(\<forall>c. occurrenceCount ?occ c \<le> occurrenceCount ?occ m)
               \<and> (case latestCwdOf ?occ of
                     None \<Rightarrow> ?r = m
                   | Some l \<Rightarrow>
                       (l, Some (latestTime ?occ)) \<in> set ?occ \<and> 0 < latestTime ?occ
                       \<and> (\<forall>c t. (c, Some t) \<in> set ?occ \<longrightarrow> t \<le> latestTime ?occ)
                       \<and> ?r = (if 10 * occurrenceCount ?occ l \<ge> 3 * occurrenceCount ?occ m
                              then l else m))"
    if "card (set (map fst ?occ)) \<ge> 2 \<and> mostFrequentCwd ?occ = Some m" for m
  proof -
    from that many obtain x y zs where rd: "remdups (map fst ?occ) = x # y # zs" by blast
    from that have mf: "mostFrequentCwd ?occ = Some m" by simp
    show ?thesis
    proof (cases "latestCwdOf ?occ")
      case None
      then show ?thesis using mostFrequentCwd_max(2) [OF mf] by (simp add: r specResolvedPath_def rd mf)
    next
      case (Some l)
      from latestCwdOf_latest [OF Some] mostFrequentCwd_max(2) [OF mf] show ?thesis
        by (simp add: r specResolvedPath_def rd mf Some)
    qed
  qed
  have none: "fst (extractProjectDirectory parseLine projectDirectoryCache None projectName)
         = decodeProjectName projectName"
    using miss by (simp add: extractProjectDirectory_def Let_def)
  show "(let occ = cwdOccurrences parseLine dir;
          r = fst (extractProjectDirectory parseLine projectDirectoryCache (Some dir) projectName)
      in (occ = [] \<longrightarrow> r = decodeProjectName projectName)
         \<and> (\<forall>c. set (map fst occ) = {c} \<longrightarrow> r = c)
         \<and> (\<forall>m. card (set (map fst occ)) \<ge> 2 \<and> mostFrequentCwd occ = Some m \<longrightarrow>
               (\<forall>c. occurrenceCount occ c \<le> occurrenceCount occ m)
               \<and> (case latestCwdOf occ of
                     None \<Rightarrow> r = m
                   | Some l \<Rightarrow>
                       (l, Some (latestTime occ)) \<in> set occ \<and> 0 < latestTime occ
                       \<and> (\<forall>c t. (c, Some t) \<in> set occ \<longrightarrow> t \<le> latestTime occ)
                       \<and> r = (if 10 * occurrenceCount occ l \<ge> 3 * occurrenceCount occ m
                              then l else m)))
         \<and> (card (set (map fst occ)) \<ge> 2 \<longrightarrow> mostFrequentCwd occ \<noteq> None)
         \<and> r = specResolvedPath projectName occ
         \<and> snd (extractProjectDirectory parseLine projectDirectoryCache (Some dir) projectName)
             = projectDirectoryCache(projectName \<mapsto> r))
     \<and> fst (extractProjectDirectory parseLine projectDirectoryCache None projectName)
         = decodeProjectName projectName"
    unfolding Let_def using e o sev ne r c none by blast
qed

lemma example_selection:
  "specResolvedPath ''-A'' (cwdOccurrences exampleCwdParse (exampleCwdDir 10 3)) = ''/B''"
  "specResolvedPath ''-A'' (cwdOccurrences exampleCwdParse (exampleCwdDir 10 2)) = ''/A''"
  "specResolvedPath ''-A-b'' (cwdOccurrences exampleCwdParse (exampleCwdDir 0 0)) = ''/A/b''"
  by code_simp+

text \<open>
  C4 on the worked example: ten lines with \<open>cwd\<close> \<open>/A\<close>, then three later lines with \<open>/B\<close>,
  resolve to \<open>/B\<close>; with two lines of \<open>/B\<close> they resolve to \<open>/A\<close>; with no line at all the
  alias \<open>-A-b\<close> resolves to \<open>/A/b\<close>.
\<close>

theorem extractProjectDirectory_selection_witness:
  "fst (extractProjectDirectory exampleCwdParse Map.empty (Some (exampleCwdDir 10 3)) ''-A'') = ''/B''
   \<and> fst (extractProjectDirectory exampleCwdParse Map.empty (Some (exampleCwdDir 10 2)) ''-A'') = ''/A''
   \<and> fst (extractProjectDirectory exampleCwdParse Map.empty (Some (exampleCwdDir 0 0)) ''-A-b'')
       = ''/A/b''"
  using extractProjectDirectory_selection [of Map.empty "''-A''" exampleCwdParse "exampleCwdDir 10 3"]
    extractProjectDirectory_selection [of Map.empty "''-A''" exampleCwdParse "exampleCwdDir 10 2"]
    extractProjectDirectory_selection [of Map.empty "''-A-b''" exampleCwdParse "exampleCwdDir 0 0"]
  unfolding Let_def example_selection by simp

section \<open>Properties of the path sandbox\<close>

lemma commonPrefixLength_le: "commonPrefixLength xs ys \<le> length xs"
  by (induction xs ys rule: commonPrefixLength.induct) simp_all

lemma commonPrefixLength_full: "commonPrefixLength xs ys = length xs \<Longrightarrow> prefix xs ys"
  by (induction xs ys rule: commonPrefixLength.induct) (simp_all split: if_splits)

lemma joinSlash_dotdot: "startsWith (joinSlash (''..'' # rest)) ''..''"
  by (cases rest) (simp_all add: startsWith_def)

lemma relative_inside:
  assumes "\<not> startsWith (relative processCwd dir p) ''..''"
  shows "insideDirectory processCwd dir p"
proof -
  let ?f = "resolveSegments processCwd dir" and ?t = "resolveSegments processCwd p"
  let ?k = "commonPrefixLength ?f ?t"
  have "length ?f - ?k = 0"
  proof (rule ccontr)
    assume "length ?f - ?k \<noteq> 0"
    then obtain n where "length ?f - ?k = Suc n" by (cases "length ?f - ?k") auto
    then have "startsWith (relative processCwd dir p) ''..''"
      by (simp add: relative_def Let_def joinSlash_dotdot)
    with assms show False by simp
  qed
  then have "?k = length ?f" using commonPrefixLength_le [of ?f ?t] by simp
  then show ?thesis unfolding insideDirectory_def by (rule commonPrefixLength_full)
qed

lemma splitSlash_nonempty: "splitSlash p \<noteq> []"
  by (induction p) (auto split: list.splits)

lemma splitSlash_append:
  "splitSlash (a @ CHR ''/'' # b) = splitSlash a @ splitSlash b"
proof (induction a)
  case Nil
  then show ?case by simp
next
  case (Cons c a)
  obtain s ss where sp: "splitSlash a = s # ss" using splitSlash_nonempty [of a] by (cases "splitSlash a") auto
  show ?case by (simp add: Cons sp)
qed

lemma splitSlash_trailing: "splitSlash (a @ ''/'') = splitSlash a @ [[]]"
  using splitSlash_append [of a "[]"] by simp

lemma splitSlash_no_slash: "s \<in> set (splitSlash p) \<Longrightarrow> CHR ''/'' \<notin> set s"
proof (induction p arbitrary: s)
  case Nil
  then show ?case by simp
next
  case (Cons c p)
  then show ?case by (cases "splitSlash p") (auto split: if_splits)
qed

lemma splitSlash_plain: "CHR ''/'' \<notin> set s \<Longrightarrow> splitSlash s = [s]"
proof (induction s)
  case Nil
  then show ?case by simp
next
  case (Cons c s)
  then have "c \<noteq> CHR ''/''" and "CHR ''/'' \<notin> set s" by auto
  with Cons.IH show ?case by simp
qed

lemma splitSlash_joinSlash:
  assumes "ss \<noteq> []" and "\<forall>s \<in> set ss. CHR ''/'' \<notin> set s"
  shows "splitSlash (joinSlash ss) = ss"
  using assms
proof (induction ss rule: joinSlash.induct)
  case 1
  then show ?case by simp
next
  case (2 s)
  then show ?case by (simp add: splitSlash_plain)
next
  case (3 s v va)
  then show ?case by (simp add: splitSlash_append splitSlash_plain)
qed

lemma normStep_proper: "properSegment s \<Longrightarrow> normStep allow res s = res @ [s]"
  by (simp add: normStep_def properSegment_def)

lemma normStep_skip: "s = [] \<or> s = ''.'' \<Longrightarrow> normStep allow res s = res"
  by (auto simp: normStep_def)

lemma foldl_normStep_proper:
  "\<forall>s \<in> set ss. properSegment s \<Longrightarrow> foldl (normStep allow) acc ss = acc @ ss"
  by (induction ss arbitrary: acc) (simp_all add: normStep_proper)

lemma foldl_normStep_no_dotdot:
  "\<forall>s \<in> set ss. s \<noteq> ''..'' \<Longrightarrow>
   foldl (normStep allow) acc ss = acc @ filter (\<lambda>s. s \<noteq> [] \<and> s \<noteq> ''.'') ss"
  by (induction ss arbitrary: acc) (auto simp: normStep_def)

text \<open>The result of normalising without \<open>..\<close> above the root has proper segments only.\<close>

lemma normStep_False_proper:
  assumes "\<forall>s \<in> set res. properSegment s" and "CHR ''/'' \<notin> set seg"
  shows "\<forall>s \<in> set (normStep False res seg). properSegment s"
  using assms by (auto simp: normStep_def properSegment_def dest: in_set_butlastD)

lemma foldl_normStep_False_proper:
  assumes "\<forall>s \<in> set res. properSegment s" and "\<forall>s \<in> set segs. CHR ''/'' \<notin> set s"
  shows "\<forall>s \<in> set (foldl (normStep False) res segs). properSegment s"
  using assms
proof (induction segs arbitrary: res)
  case Nil
  then show ?case by simp
next
  case (Cons a segs)
  have "\<forall>s \<in> set (normStep False res a). properSegment s"
    using Cons.prems by (intro normStep_False_proper) auto
  from Cons.IH [OF this] Cons.prems(2) show ?case by simp
qed

lemma normSegments_False_proper: "\<forall>s \<in> set (normSegments False p). properSegment s"
  unfolding normSegments_def
  by (rule foldl_normStep_False_proper) (auto dest: splitSlash_no_slash)

text \<open>With \<open>..\<close> allowed above the root, the result is a run of \<open>..\<close> and proper segments.\<close>

lemma foldl_normStep_True_shape:
  assumes "\<forall>s \<in> set res. upOrProper s" and "\<forall>s \<in> set segs. CHR ''/'' \<notin> set s"
  shows "\<forall>s \<in> set (foldl (normStep True) res segs). upOrProper s"
  using assms
proof (induction segs arbitrary: res)
  case Nil
  then show ?case by simp
next
  case (Cons a segs)
  have "\<forall>s \<in> set (normStep True res a). upOrProper s"
    using Cons.prems by (auto simp: normStep_def upOrProper_def properSegment_def dest: in_set_butlastD)
  from Cons.IH [OF this] Cons.prems(2) show ?case by simp
qed

text \<open>
  Normalising first, with \<open>..\<close> kept above the root, and then resolving behind a directory
  gives what resolving at once gives.
\<close>

lemma normStep_False_after_True:
  assumes shape: "\<forall>s \<in> set N. upOrProper s" and x: "CHR ''/'' \<notin> set x"
  shows "foldl (normStep False) acc (normStep True N x)
           = normStep False (foldl (normStep False) acc N) x"
proof (cases "x = [] \<or> x = ''.''")
  case True
  then show ?thesis by (auto simp: normStep_def)
next
  case False
  show ?thesis
  proof (cases "x = ''..''")
    case dd: True
    show ?thesis
    proof (cases "N \<noteq> [] \<and> last N \<noteq> ''..''")
      case True
      then obtain N' n where N: "N = N' @ [n]" and n: "n \<noteq> ''..''"
        by (metis append_butlast_last_id)
      have "upOrProper n" using shape N by simp
      then have pn: "properSegment n" using n by (simp add: upOrProper_def)
      have "foldl (normStep False) acc N = foldl (normStep False) acc N' @ [n]"
        by (simp add: N normStep_proper [OF pn])
      then show ?thesis using True dd N n by (simp add: normStep_def)
    next
      case False
      then have "normStep True N x = N @ [''..'']" using dd by (auto simp: normStep_def)
      then show ?thesis using dd by simp
    qed
  next
    case nd: False
    then have "properSegment x" using False x by (simp add: properSegment_def)
    then show ?thesis by (simp add: normStep_proper)
  qed
qed

lemma foldl_normStep_False_after_True:
  assumes "\<forall>s \<in> set X. CHR ''/'' \<notin> set s"
  shows "foldl (normStep False) acc (foldl (normStep True) [] X) = foldl (normStep False) acc X"
  using assms
proof (induction X rule: rev_induct)
  case Nil
  then show ?case by simp
next
  case (snoc x X)
  have shape: "\<forall>s \<in> set (foldl (normStep True) [] X). upOrProper s"
    using snoc.prems by (intro foldl_normStep_True_shape) auto
  have x: "CHR ''/'' \<notin> set x" using snoc.prems by simp
  show ?case
    using normStep_False_after_True [OF shape x, of acc] snoc by simp
qed


lemma normSegments_Nil: "normSegments allow [] = []"
  by (simp add: normSegments_def normStep_def)

lemma normSegments_append:
  "normSegments allow (a @ CHR ''/'' # b) = foldl (normStep allow) (normSegments allow a) (splitSlash b)"
  by (simp add: normSegments_def splitSlash_append)

lemma normSegments_trailing: "normSegments allow (a @ ''/'') = normSegments allow a"
  using normSegments_append [of allow a "[]"] by (simp add: normStep_def)

lemma normSegments_leading: "normSegments allow (CHR ''/'' # b) = normSegments allow b"
  by (simp add: normSegments_def normStep_def)

lemma joinSlash_eq_Nil:
  assumes "\<forall>s \<in> set ss. s \<noteq> []"
  shows "joinSlash ss = [] \<longleftrightarrow> ss = []"
  using assms by (induction ss rule: joinSlash.induct) auto

lemma joinSlash_hd:
  assumes "ss \<noteq> []" and "hd ss \<noteq> []"
  shows "joinSlash ss \<noteq> [] \<and> hd (joinSlash ss) = hd (hd ss)"
  using assms by (induction ss rule: joinSlash.induct) auto

lemma upOrProper_facts: "upOrProper s \<Longrightarrow> s \<noteq> [] \<and> CHR ''/'' \<notin> set s"
  by (auto simp: upOrProper_def properSegment_def)

lemma properSegment_facts: "properSegment s \<Longrightarrow> s \<noteq> [] \<and> CHR ''/'' \<notin> set s"
  by (auto simp: properSegment_def)

lemma normSegments_joinSlash_proper:
  assumes "\<forall>s \<in> set S. properSegment s"
  shows "normSegments False (joinSlash S) = S"
proof (cases "S = []")
  case True
  then show ?thesis by (simp add: normSegments_Nil)
next
  case False
  have "splitSlash (joinSlash S) = S"
    using False assms by (intro splitSlash_joinSlash) (auto dest: properSegment_facts)
  then show ?thesis
    using foldl_normStep_proper [OF assms, of False "[]"] by (simp add: normSegments_def)
qed

lemma normSegments_True_shape: "\<forall>s \<in> set (normSegments True p). upOrProper s"
  unfolding normSegments_def
  by (rule foldl_normStep_True_shape) (auto dest: splitSlash_no_slash)

lemma foldl_after_normSegments_True:
  "foldl (normStep False) acc (normSegments True p) = foldl (normStep False) acc (splitSlash p)"
  unfolding normSegments_def
  by (rule foldl_normStep_False_after_True) (auto dest: splitSlash_no_slash)

lemma resolveSegments_absolute:
  assumes "isAbsolute q"
  shows "resolveSegments processCwd q = normSegments False q"
proof -
  from assms have "q \<noteq> []" by (auto simp: isAbsolute_def)
  with assms have "resolveInput processCwd q = q @ ''/''" by (simp add: resolveInput_def)
  then show ?thesis by (simp only: resolveSegments_def normSegments_trailing)
qed

lemma resolveSegments_relative:
  "\<not> isAbsolute q \<Longrightarrow>
   resolveSegments processCwd q
     = foldl (normStep False) (normSegments False processCwd) (splitSlash q)"
proof (cases "q = []")
  case True
  then show ?thesis
    by (simp add: resolveSegments_def resolveInput_def normSegments_trailing normStep_def)
next
  case False
  assume "\<not> isAbsolute q"
  with False have "resolveInput processCwd q = (processCwd @ CHR ''/'' # q) @ ''/''"
    by (simp add: resolveInput_def)
  then have "resolveSegments processCwd q = normSegments False ((processCwd @ CHR ''/'' # q) @ ''/'')"
    by (simp only: resolveSegments_def)
  also have "\<dots> = normSegments False (processCwd @ CHR ''/'' # q)"
    by (rule normSegments_trailing)
  also have "\<dots> = foldl (normStep False) (normSegments False processCwd) (splitSlash q)"
    by (rule normSegments_append)
  finally show ?thesis .
qed

lemma isAbsolute_normalize:
  assumes "p \<noteq> []"
  shows "isAbsolute (normalize p) = isAbsolute p"
proof (cases "isAbsolute p")
  case True
  then show ?thesis using assms by (simp add: normalize_def Let_def isAbsolute_def)
next
  case False
  let ?N = "normSegments True p"
  have shape: "\<forall>s \<in> set ?N. upOrProper s" by (rule normSegments_True_shape)
  have "\<not> isAbsolute (joinSlash ?N)" if "joinSlash ?N \<noteq> []"
  proof -
    from that have ne: "?N \<noteq> []" by auto
    then have h: "upOrProper (hd ?N)" using shape by simp
    then have "hd ?N \<noteq> []" and "CHR ''/'' \<notin> set (hd ?N)" by (auto dest: upOrProper_facts)
    moreover from this joinSlash_hd [OF ne] have "hd (joinSlash ?N) = hd (hd ?N)" by simp
    ultimately have "hd (joinSlash ?N) \<noteq> CHR ''/''" by (metis hd_in_set)
    with that show ?thesis by (cases "joinSlash ?N") (simp_all add: isAbsolute_def)
  qed
  then have "\<not> isAbsolute (joinSlash ?N @ ''/'')" if "joinSlash ?N \<noteq> []"
    using that by (cases "joinSlash ?N") (simp_all add: isAbsolute_def)
  with \<open>joinSlash ?N \<noteq> [] \<Longrightarrow> \<not> isAbsolute (joinSlash ?N)\<close> False assms show ?thesis
    by (auto simp: normalize_def Let_def normalizeString_def isAbsolute_def)
qed


lemma resolveSegments_normalize:
  assumes ne: "p \<noteq> []"
  shows "resolveSegments processCwd (normalize p) = resolveSegments processCwd p"
proof (cases "isAbsolute p")
  case True
  let ?S = "normSegments False p"
  have proper: "\<forall>s \<in> set ?S. properSegment s" by (rule normSegments_False_proper)
  have abs': "isAbsolute (normalize p)" using True ne by (simp add: isAbsolute_normalize)
  have "normSegments False (normalize p) = ?S"
  proof (cases "joinSlash ?S = []")
    case e: True
    then have "?S = []" using proper joinSlash_eq_Nil [of ?S] by (auto dest: properSegment_facts)
    moreover have "normalize p = ''/''"
      using e True ne by (simp add: normalize_def Let_def normalizeString_def)
    ultimately show ?thesis by (simp add: normSegments_def normStep_def)
  next
    case n: False
    have js: "normSegments False (joinSlash ?S) = ?S"
      by (rule normSegments_joinSlash_proper [OF proper])
    have "normalize p = CHR ''/'' # joinSlash ?S \<or> normalize p = CHR ''/'' # (joinSlash ?S @ ''/'')"
      using n True ne by (auto simp: normalize_def Let_def normalizeString_def)
    then show ?thesis
    proof
      assume "normalize p = CHR ''/'' # joinSlash ?S"
      then show ?thesis by (simp add: normSegments_leading js)
    next
      assume "normalize p = CHR ''/'' # (joinSlash ?S @ ''/'')"
      then show ?thesis
        using normSegments_trailing [of False "joinSlash ?S"]
        by (simp add: normSegments_leading js)
    qed
  qed
  then show ?thesis
    by (simp add: resolveSegments_absolute [OF abs'] resolveSegments_absolute [OF True])
next
  case False
  let ?N = "normSegments True p"
  let ?C = "normSegments False processCwd"
  have shape: "\<forall>s \<in> set ?N. upOrProper s" by (rule normSegments_True_shape)
  have rel': "\<not> isAbsolute (normalize p)" using False ne by (simp add: isAbsolute_normalize)
  have key: "foldl (normStep False) ?C ?N = foldl (normStep False) ?C (splitSlash p)"
    by (rule foldl_after_normSegments_True)
  have "foldl (normStep False) ?C (splitSlash (normalize p)) = foldl (normStep False) ?C ?N"
  proof (cases "joinSlash ?N = []")
    case e: True
    then have N: "?N = []" using shape joinSlash_eq_Nil [of ?N] by (auto dest: upOrProper_facts)
    have "normalize p = ''.'' \<or> normalize p = ''./''"
      using e False ne by (auto simp: normalize_def Let_def normalizeString_def)
    then show ?thesis using N by (auto simp: normStep_def)
  next
    case n: False
    then have Nne: "?N \<noteq> []" by auto
    have sp: "splitSlash (joinSlash ?N) = ?N"
      using Nne shape by (intro splitSlash_joinSlash) (auto dest: upOrProper_facts)
    have "normalize p = joinSlash ?N \<or> normalize p = joinSlash ?N @ ''/''"
      using n False ne by (auto simp: normalize_def Let_def normalizeString_def)
    then show ?thesis
    proof
      assume "normalize p = joinSlash ?N"
      then show ?thesis by (simp add: sp)
    next
      assume "normalize p = joinSlash ?N @ ''/''"
      then show ?thesis by (simp add: splitSlash_trailing sp normStep_def)
    qed
  qed
  then show ?thesis
    by (simp add: resolveSegments_relative [OF rel'] resolveSegments_relative [OF False] key)
qed

lemma resolveSegments_dot: "resolveSegments processCwd ''.'' = resolveSegments processCwd []"
  by (simp add: resolveSegments_relative isAbsolute_def normStep_def)

lemma resolveSegments_join_slash:
  assumes "a \<noteq> []"
  shows "resolveSegments processCwd (a @ CHR ''/'' # b)
           = foldl (normStep False) (resolveSegments processCwd a) (splitSlash b)"
proof (cases "isAbsolute a")
  case True
  then have "isAbsolute (a @ CHR ''/'' # b)" using assms by (cases a) (simp_all add: isAbsolute_def)
  then show ?thesis
    by (simp add: resolveSegments_absolute True normSegments_append)
next
  case False
  then have "\<not> isAbsolute (a @ CHR ''/'' # b)" using assms by (cases a) (simp_all add: isAbsolute_def)
  then show ?thesis
    by (simp add: resolveSegments_relative False splitSlash_append)
qed

lemma resolveSegments_pathJoin:
  assumes "\<not> isAbsolute rel"
  shows "resolveSegments processCwd (pathJoin dir rel)
           = foldl (normStep False) (resolveSegments processCwd dir) (splitSlash rel)"
proof (cases "rel = []")
  case True
  then show ?thesis
    by (cases "dir = []")
       (simp_all add: pathJoin_def resolveSegments_dot resolveSegments_normalize normStep_def)
next
  case False
  show ?thesis
  proof (cases "dir = []")
    case True
    have "resolveSegments processCwd [] = normSegments False processCwd"
      by (simp add: resolveSegments_relative isAbsolute_def normStep_def)
    then show ?thesis
      using True False assms
      by (simp add: pathJoin_def resolveSegments_normalize resolveSegments_relative)
  next
    case d: False
    then show ?thesis
      using False by (simp add: pathJoin_def resolveSegments_normalize resolveSegments_join_slash)
  qed
qed


lemma resolve_absolute_cwd:
  assumes "isAbsolute processCwd"
  shows "resolve processCwd q = CHR ''/'' # joinSlash (resolveSegments processCwd q)"
  using assms by (simp add: resolve_def Let_def normalizeString_def resolveSegments_def)

lemma resolveSegments_resolve:
  assumes "isAbsolute processCwd"
  shows "resolveSegments processCwd (resolve processCwd q) = resolveSegments processCwd q"
proof -
  let ?S = "resolveSegments processCwd q"
  have proper: "\<forall>s \<in> set ?S. properSegment s"
    unfolding resolveSegments_def by (rule normSegments_False_proper)
  have "isAbsolute (CHR ''/'' # joinSlash ?S)" by (simp add: isAbsolute_def)
  then have "resolveSegments processCwd (CHR ''/'' # joinSlash ?S)
               = normSegments False (CHR ''/'' # joinSlash ?S)"
    by (rule resolveSegments_absolute)
  also have "\<dots> = ?S"
    by (simp add: normSegments_leading normSegments_joinSlash_proper [OF proper])
  finally show ?thesis by (simp add: resolve_absolute_cwd [OF assms])
qed

lemma stringIncludes_iff: "stringIncludes p sub \<longleftrightarrow> (\<exists>a b. p = a @ sub @ b)"
proof (induction p)
  case Nil
  then show ?case by auto
next
  case (Cons c p)
  show ?case
  proof
    assume "stringIncludes (c # p) sub"
    then consider "prefix sub (c # p)" | "stringIncludes p sub" by auto
    then show "\<exists>a b. c # p = a @ sub @ b"
    proof cases
      case 1
      then obtain b where "c # p = sub @ b" by (auto simp: prefix_def)
      then have "c # p = [] @ sub @ b" by simp
      then show ?thesis by blast
    next
      case 2
      then obtain a b where "p = a @ sub @ b" using Cons.IH by blast
      then have "c # p = (c # a) @ sub @ b" by simp
      then show ?thesis by blast
    qed
  next
    assume "\<exists>a b. c # p = a @ sub @ b"
    then obtain a b where ab: "c # p = a @ sub @ b" by blast
    show "stringIncludes (c # p) sub"
    proof (cases a)
      case Nil
      then have "prefix sub (c # p)" using ab by (simp add: prefix_def)
      then show ?thesis by simp
    next
      case (Cons c' a')
      then have "p = a' @ sub @ b" using ab by simp
      then have "stringIncludes p sub" using Cons.IH by blast
      then show ?thesis by simp
    qed
  qed
qed

lemma splitSlash_hd_prefix: "splitSlash p = t # ts \<Longrightarrow> prefix t p"
proof (induction p arbitrary: t ts)
  case Nil
  then show ?case by simp
next
  case (Cons d p)
  obtain u us where sp: "splitSlash p = u # us"
    using splitSlash_nonempty [of p] by (cases "splitSlash p") auto
  from Cons.IH [OF sp] have "prefix u p" .
  with Cons.prems sp show ?case by (auto split: if_splits)
qed

lemma splitSlash_segment_infix:
  "s \<in> set (splitSlash p) \<Longrightarrow> \<exists>a b. p = a @ s @ b"
proof (induction p arbitrary: s)
  case Nil
  then show ?case by simp
next
  case (Cons c p)
  obtain t ts where sp: "splitSlash p = t # ts"
    using splitSlash_nonempty [of p] by (cases "splitSlash p") auto
  have later: "\<exists>a b. c # p = a @ s @ b" if "s \<in> set (splitSlash p)"
  proof -
    from that obtain a b where "p = a @ s @ b" using Cons.IH by blast
    then have "c # p = (c # a) @ s @ b" by simp
    then show ?thesis by blast
  qed
  show ?case
  proof (cases "c = CHR ''/''")
    case True
    then have "s = [] \<or> s \<in> set (splitSlash p)" using Cons.prems by simp
    then show ?thesis
    proof
      assume "s = []"
      then have "c # p = [] @ s @ (c # p)" by simp
      then show ?thesis by blast
    next
      assume "s \<in> set (splitSlash p)"
      then show ?thesis by (rule later)
    qed
  next
    case False
    then have "s = c # t \<or> s \<in> set ts" using Cons.prems sp by simp
    then show ?thesis
    proof
      assume s: "s = c # t"
      from splitSlash_hd_prefix [OF sp] obtain b where "p = t @ b" by (auto simp: prefix_def)
      then have "c # p = [] @ s @ b" using s by simp
      then show ?thesis by blast
    next
      assume "s \<in> set ts"
      then have "s \<in> set (splitSlash p)" using sp by simp
      then show ?thesis by (rule later)
    qed
  qed
qed


lemma commonPrefixLength_append: "commonPrefixLength xs (xs @ ys) = length xs"
  by (induction xs) simp_all

lemma no_dotdot_segments:
  assumes "\<not> stringIncludes rel ''..''" and "s \<in> set (splitSlash rel)"
  shows "\<not> prefix ''..'' s"
proof
  assume "prefix ''..'' s"
  then obtain s' where s: "s = ''..'' @ s'" by (auto simp: prefix_def)
  from splitSlash_segment_infix [OF assms(2)] obtain a b where "rel = a @ s @ b" by blast
  then have "rel = a @ ''..'' @ (s' @ b)" using s by simp
  then have "stringIncludes rel ''..''" unfolding stringIncludes_iff by blast
  with assms(1) show False by simp
qed

lemma joinSlash_clean_start:
  assumes "\<forall>r \<in> set R. r \<noteq> [] \<and> r \<noteq> ''.'' \<and> \<not> prefix ''..'' r \<and> CHR ''/'' \<notin> set r"
  shows "\<not> startsWith (joinSlash R) ''..'' \<and> \<not> isAbsolute (joinSlash R)"
proof (cases R)
  case Nil
  then show ?thesis by (simp add: startsWith_def isAbsolute_def)
next
  case (Cons r rs)
  then have r: "r \<noteq> []" "r \<noteq> ''.''" "\<not> prefix ''..'' r" "CHR ''/'' \<notin> set r"
    using assms by auto
  obtain x where j: "joinSlash R = r @ x" using Cons by (cases rs) auto
  obtain c r' where cr: "r = c # r'" using r(1) by (cases r) auto
  have "c \<noteq> CHR ''/''" using r(4) cr by auto
  then have na: "\<not> isAbsolute (joinSlash R)" by (simp add: j cr isAbsolute_def)
  have "\<not> prefix ''..'' (r @ x)"
  proof
    assume p: "prefix ''..'' (r @ x)"
    then have c: "c = CHR ''.''" using cr by auto
    show False
    proof (cases r')
      case Nil
      then show ?thesis using c cr r(2) by simp
    next
      case (Cons c' r'')
      then have "c' = CHR ''.''" using p cr by auto
      then have "r = ''..'' @ r''" using c cr Cons by simp
      then have "prefix ''..'' r" by (metis prefixI)
      with r(3) show ?thesis by simp
    qed
  qed
  then show ?thesis using na by (simp add: startsWith_def j)
qed

lemma valid_path_accepted:
  assumes cwd: "isAbsolute processCwd"
    and rel: "\<not> isAbsolute relativePath"
    and valid: "validateRelativePath relativePath"
  shows "resolveProjectFilePath processCwd parseLine projectDirectoryCache aliasDir projectName
           relativePath
         = Inr (resolve processCwd
                  (pathJoin (fst (extractProjectDirectory parseLine projectDirectoryCache aliasDir
                                    projectName)) relativePath))"
    and "resolveSegments processCwd
           (resolve processCwd
              (pathJoin (fst (extractProjectDirectory parseLine projectDirectoryCache aliasDir
                                projectName)) relativePath))
         = resolveSegments processCwd
             (fst (extractProjectDirectory parseLine projectDirectoryCache aliasDir projectName))
           @ cleanSegments relativePath"
proof -
  let ?dir = "fst (extractProjectDirectory parseLine projectDirectoryCache aliasDir projectName)"
  let ?final = "resolve processCwd (pathJoin ?dir relativePath)"
  let ?P = "resolveSegments processCwd ?dir"
  let ?R = "cleanSegments relativePath"
  have nodd: "\<not> stringIncludes relativePath ''..''"
    using valid by (simp add: validateRelativePath_def split: if_splits)
  have segs: "\<forall>s \<in> set (splitSlash relativePath). \<not> prefix ''..'' s"
    using no_dotdot_segments [OF nodd] by blast
  then have "\<forall>s \<in> set (splitSlash relativePath). s \<noteq> ''..''" by auto
  then have "foldl (normStep False) ?P (splitSlash relativePath) = ?P @ ?R"
    unfolding cleanSegments_def by (rule foldl_normStep_no_dotdot)
  then have S: "resolveSegments processCwd (pathJoin ?dir relativePath) = ?P @ ?R"
    by (simp add: resolveSegments_pathJoin [OF rel])
  show fs: "resolveSegments processCwd ?final = ?P @ ?R"
    by (simp add: resolveSegments_resolve [OF cwd] S)
  have "relative processCwd ?dir ?final = joinSlash ?R"
    by (simp add: relative_def Let_def fs commonPrefixLength_append)
  moreover have "\<forall>r \<in> set ?R. r \<noteq> [] \<and> r \<noteq> ''.'' \<and> \<not> prefix ''..'' r \<and> CHR ''/'' \<notin> set r"
    using segs by (auto simp: cleanSegments_def dest: splitSlash_no_slash)
  ultimately have "\<not> startsWith (relative processCwd ?dir ?final) ''..''
                   \<and> \<not> isAbsolute (relative processCwd ?dir ?final)"
    using joinSlash_clean_start [of ?R] by simp
  then show "resolveProjectFilePath processCwd parseLine projectDirectoryCache aliasDir projectName
           relativePath = Inr ?final"
    using rel valid by (simp add: resolveProjectFilePath_def Let_def)
qed

lemma etc_passwd_valid:
  "\<not> isAbsolute ''etc/passwd''" "validateRelativePath ''etc/passwd''"
  "cleanSegments ''etc/passwd'' = [''etc'', ''passwd'']"
  by code_simp+


text \<open>
  C6 as stated fails: a path with a NUL byte passes the validation and is resolved, here to
  \<open>/proj/foo\<close>, NUL, \<open>bar\<close>.
\<close>

theorem resolveProjectFilePath_nul_counterexample:
  "\<not> isRejected (resolveProjectFilePath ''/srv'' (\<lambda>line. None) [''p'' \<mapsto> ''/proj''] None ''p'' nulPath)"
  by code_simp

text \<open>
  C6, amended. Project-relative resolution rejects absolute paths, paths containing \<open>..\<close>,
  paths with a drive prefix and paths containing one of \<open>< > : " | ? *\<close>; every accepted
  path resolves to a location inside the project's real directory; \<open>../etc/passwd\<close>,
  \<open>/etc/passwd\<close> and \<open>C:\Windows\<close> are rejected for every project. Every other path is
  accepted (the working directory of the process being absolute) and resolves to the
  project's directory followed by the path's own segments; so \<open>etc/passwd\<close> is accepted
  for every project and resolves to \<open>etc/passwd\<close> under the project root. (A path with a
  NUL byte is not among the rejected ones.)
\<close>

theorem resolveProjectFilePath_sandbox:
  "(isAbsolute relativePath \<or> stringIncludes relativePath ''..'' \<or> hasDrivePrefix relativePath
      \<or> hasSpecialChar relativePath \<longrightarrow>
     isRejected (resolveProjectFilePath processCwd parseLine projectDirectoryCache aliasDir
                   projectName relativePath))
   \<and> (\<forall>finalPath.
         resolveProjectFilePath processCwd parseLine projectDirectoryCache aliasDir projectName
           relativePath = Inr finalPath \<longrightarrow>
         finalPath = resolve processCwd
                       (pathJoin (fst (extractProjectDirectory parseLine projectDirectoryCache
                                         aliasDir projectName)) relativePath)
         \<and> insideDirectory processCwd
             (fst (extractProjectDirectory parseLine projectDirectoryCache aliasDir projectName))
             finalPath)
   \<and> isRejected (resolveProjectFilePath processCwd parseLine projectDirectoryCache aliasDir
                   projectName ''../etc/passwd'')
   \<and> isRejected (resolveProjectFilePath processCwd parseLine projectDirectoryCache aliasDir
                   projectName ''/etc/passwd'')
   \<and> isRejected (resolveProjectFilePath processCwd parseLine projectDirectoryCache aliasDir
                   projectName windowsPath)
   \<and> (isAbsolute processCwd \<and> \<not> isAbsolute relativePath \<and> validateRelativePath relativePath \<longrightarrow>
        resolveProjectFilePath processCwd parseLine projectDirectoryCache aliasDir projectName
          relativePath
          = Inr (resolve processCwd
                   (pathJoin (fst (extractProjectDirectory parseLine projectDirectoryCache aliasDir
                                     projectName)) relativePath))
        \<and> resolveSegments processCwd
            (resolve processCwd
               (pathJoin (fst (extractProjectDirectory parseLine projectDirectoryCache aliasDir
                                 projectName)) relativePath))
          = resolveSegments processCwd
              (fst (extractProjectDirectory parseLine projectDirectoryCache aliasDir projectName))
            @ cleanSegments relativePath)
   \<and> (isAbsolute processCwd \<longrightarrow>
        resolveProjectFilePath processCwd parseLine projectDirectoryCache aliasDir projectName
          ''etc/passwd''
          = Inr (resolve processCwd
                   (pathJoin (fst (extractProjectDirectory parseLine projectDirectoryCache aliasDir
                                     projectName)) ''etc/passwd''))
        \<and> resolveSegments processCwd
            (resolve processCwd
               (pathJoin (fst (extractProjectDirectory parseLine projectDirectoryCache aliasDir
                                 projectName)) ''etc/passwd''))
          = resolveSegments processCwd
              (fst (extractProjectDirectory parseLine projectDirectoryCache aliasDir projectName))
            @ [''etc'', ''passwd''])"
proof (intro conjI impI allI)
  assume "isAbsolute relativePath \<or> stringIncludes relativePath ''..'' \<or> hasDrivePrefix relativePath
      \<or> hasSpecialChar relativePath"
  then show "isRejected (resolveProjectFilePath processCwd parseLine projectDirectoryCache aliasDir
                   projectName relativePath)"
    by (auto simp: resolveProjectFilePath_def validateRelativePath_def isRejected_def)
next
  fix finalPath
  assume a: "resolveProjectFilePath processCwd parseLine projectDirectoryCache aliasDir projectName
           relativePath = Inr finalPath"
  let ?dir = "fst (extractProjectDirectory parseLine projectDirectoryCache aliasDir projectName)"
  from a show f: "finalPath = resolve processCwd (pathJoin ?dir relativePath)"
    by (auto simp: resolveProjectFilePath_def Let_def split: if_splits)
  from a have "\<not> startsWith (relative processCwd ?dir (resolve processCwd (pathJoin ?dir relativePath))) ''..''"
    by (auto simp: resolveProjectFilePath_def Let_def split: if_splits)
  then show "insideDirectory processCwd ?dir finalPath"
    unfolding f by (rule relative_inside)
next
  show "isRejected (resolveProjectFilePath processCwd parseLine projectDirectoryCache aliasDir
                   projectName ''../etc/passwd'')"
    by (simp add: resolveProjectFilePath_def validateRelativePath_def isRejected_def)
next
  show "isRejected (resolveProjectFilePath processCwd parseLine projectDirectoryCache aliasDir
                   projectName ''/etc/passwd'')"
    by (simp add: resolveProjectFilePath_def isAbsolute_def isRejected_def)
next
  show "isRejected (resolveProjectFilePath processCwd parseLine projectDirectoryCache aliasDir
                   projectName windowsPath)"
    by (simp add: resolveProjectFilePath_def validateRelativePath_def isRejected_def
        windowsPath_def hasDrivePrefix_def isAsciiLetter_def)
next
  assume a: "isAbsolute processCwd \<and> \<not> isAbsolute relativePath \<and> validateRelativePath relativePath"
  then show "resolveProjectFilePath processCwd parseLine projectDirectoryCache aliasDir projectName
          relativePath
          = Inr (resolve processCwd
                   (pathJoin (fst (extractProjectDirectory parseLine projectDirectoryCache aliasDir
                                     projectName)) relativePath))"
    by (intro valid_path_accepted(1)) simp_all
  from a show "resolveSegments processCwd
            (resolve processCwd
               (pathJoin (fst (extractProjectDirectory parseLine projectDirectoryCache aliasDir
                                 projectName)) relativePath))
          = resolveSegments processCwd
              (fst (extractProjectDirectory parseLine projectDirectoryCache aliasDir projectName))
            @ cleanSegments relativePath"
    by (intro valid_path_accepted(2)) simp_all
next
  assume a: "isAbsolute processCwd"
  show "resolveProjectFilePath processCwd parseLine projectDirectoryCache aliasDir projectName
          ''etc/passwd''
          = Inr (resolve processCwd
                   (pathJoin (fst (extractProjectDirectory parseLine projectDirectoryCache aliasDir
                                     projectName)) ''etc/passwd''))"
    by (rule valid_path_accepted(1) [OF a etc_passwd_valid(1,2)])
  show "resolveSegments processCwd
            (resolve processCwd
               (pathJoin (fst (extractProjectDirectory parseLine projectDirectoryCache aliasDir
                                 projectName)) ''etc/passwd''))
          = resolveSegments processCwd
              (fst (extractProjectDirectory parseLine projectDirectoryCache aliasDir projectName))
            @ [''etc'', ''passwd'']"
    using valid_path_accepted(2) [OF a etc_passwd_valid(1,2)] by (simp only: etc_passwd_valid(3))
qed

lemma example_segments:
  "resolveSegments ''/srv'' ''/proj'' = [''proj'']"
  "resolve ''/srv'' (pathJoin ''/proj'' ''etc/passwd'') = ''/proj/etc/passwd''"
  "isAbsolute ''/srv''"
  by code_simp+

lemma example_projectDir:
  "fst (extractProjectDirectory (\<lambda>line. None) [''p'' \<mapsto> ''/proj''] None ''p'') = ''/proj''"
  by (simp add: extractProjectDirectory_def)

text \<open>
  C6 on the project \<open>/proj\<close>: \<open>etc/passwd\<close> is accepted and resolves to
  \<open>/proj/etc/passwd\<close>, whose segments are those of \<open>/proj\<close> followed by \<open>etc\<close> and
  \<open>passwd\<close>.
\<close>

theorem resolveProjectFilePath_sandbox_witness:
  "resolveProjectFilePath ''/srv'' (\<lambda>line. None) [''p'' \<mapsto> ''/proj''] None ''p'' ''etc/passwd''
     = Inr ''/proj/etc/passwd''
   \<and> resolveSegments ''/srv'' ''/proj/etc/passwd'' = [''proj'', ''etc'', ''passwd'']
   \<and> insideDirectory ''/srv'' ''/proj'' ''/proj/etc/passwd''"
proof -
  note t = resolveProjectFilePath_sandbox
    [of "''etc/passwd''" "''/srv''" "\<lambda>line. None" "[''p'' \<mapsto> ''/proj'']" None "''p''",
     unfolded example_projectDir example_segments(1,2)]
  have a: "isAbsolute ''/srv''"
    by (simp add: isAbsolute_def)
  note l = t [THEN conjunct2, THEN conjunct2, THEN conjunct2, THEN conjunct2, THEN conjunct2,
              THEN conjunct2, THEN mp, OF a]
  note acc = l [THEN conjunct1]
  note segs = l [THEN conjunct2, unfolded append.simps]
  note ins = t [THEN conjunct2, THEN conjunct1, THEN spec, THEN mp, OF acc, THEN conjunct2]
  show ?thesis
    by (intro conjI) (rule acc segs ins)+
qed

section \<open>Properties of the session summaries\<close>

lemma ident_updateSession: "ident (updateSession e s) = ident s"
  by (simp add: updateSession_def Let_def split: timestampField.splits option.splits
      contentField.splits)

lemma messageCount_updateSession:
  "messageCount (updateSession e s) = messageCount s + (if isMessage e then 1 else 0)"
  by (simp add: updateSession_def Let_def isMessage_def split: timestampField.splits option.splits
      contentField.splits)

lemma lastActivity_updateSession:
  "lastActivity (updateSession e s)
     = (case entryTimestamp e of DateMs ms \<Rightarrow> ms | _ \<Rightarrow> lastActivity s)"
  by (simp add: updateSession_def Let_def split: timestampField.splits option.splits
      contentField.splits)

lemma map_of_processLine:
  assumes "truthy k"
  shows "map_of (processLine clock parseLine al il) k = stepOf clock parseLine k (map_of al k) il"
  using assms
  by (auto simp: processLine_def processEntry_def stepOf_def update_conv' Let_def
      split: option.splits)

lemma map_of_sessions_fold:
  assumes "truthy k"
  shows "map_of (foldl (processLine clock parseLine) al ils) k
           = foldl (stepOf clock parseLine k) (map_of al k) ils"
  by (induction ils arbitrary: al) (simp_all add: map_of_processLine [OF assms])

lemma distinct_processLine:
  "distinct (map fst al) \<Longrightarrow> distinct (map fst (processLine clock parseLine al il))"
  by (simp add: processLine_def processEntry_def distinct_update Let_def split: option.splits)

lemma distinct_sessions_fold:
  "distinct (map fst al) \<Longrightarrow> distinct (map fst (foldl (processLine clock parseLine) al ils))"
  by (induction ils arbitrary: al) (simp_all add: distinct_processLine)

lemma keyed_update:
  assumes "keyedByIdent al" and "ident v = k"
  shows "keyedByIdent (AList.update k v al)"
  using assms unfolding keyedByIdent_def by (induction al) (auto split: if_splits)

lemma keyed_lookup: "keyedByIdent al \<Longrightarrow> map_of al k = Some s \<Longrightarrow> ident s = k"
  unfolding keyedByIdent_def by (auto simp: list_all_iff dest!: map_of_SomeD)

lemma keyed_processLine:
  assumes "keyedByIdent al"
  shows "keyedByIdent (processLine clock parseLine al il)"
proof (cases "parseLine (snd il)")
  case None
  then show ?thesis using assms by (simp add: processLine_def)
next
  case (Some e)
  note pe = Some
  show ?thesis
  proof (cases "entrySessionId e")
    case None
    then show ?thesis using assms pe by (simp add: processLine_def processEntry_def)
  next
    case (Some k)
    have "ident (updateSession e (case map_of al k of None \<Rightarrow> newSession (clock (fst il)) e k
                                  | Some s \<Rightarrow> s)) = k"
      using assms by (auto simp: ident_updateSession newSession_def keyed_lookup split: option.splits)
    from keyed_update [OF assms this] show ?thesis
      using Some pe assms
      by (simp add: processLine_def processEntry_def Let_def)
  qed
qed

lemma keyed_sessions_fold:
  "keyedByIdent al \<Longrightarrow> keyedByIdent (foldl (processLine clock parseLine) al ils)"
  by (induction ils arbitrary: al) (simp_all add: keyed_processLine)

lemma keyed_filter:
  assumes "keyedByIdent al" and "distinct (map fst al)"
  shows "filter (\<lambda>s. ident s = k) (map snd al) = (case map_of al k of None \<Rightarrow> [] | Some s \<Rightarrow> [s])"
  using assms unfolding keyedByIdent_def
proof (induction al)
  case Nil
  then show ?case by simp
next
  case (Cons p al)
  obtain k' s where p: "p = (k', s)" by (cases p)
  show ?case
  proof (cases "k' = k")
    case True
    then have "map_of al k = None" using Cons.prems(2) p by (simp add: map_of_eq_None_iff)
    then have "filter (\<lambda>s. ident s = k) (map snd al) = []"
      using Cons by simp
    then show ?thesis using True p Cons.prems(1) by simp
  next
    case False
    then show ?thesis using p Cons by auto
  qed
qed


lemma sessionEntries_entriesOf:
  "sessionEntries parseLine k c = entriesOf parseLine k (readLines c)"
  by (simp add: sessionEntries_def entriesOf_def)

lemma entriesOf_Nil: "entriesOf parseLine k [] = []"
  by (simp add: entriesOf_def map_filter_simps)

lemma entriesOf_Cons:
  "entriesOf parseLine k (l # ls)
     = (case parseLine l of
          None \<Rightarrow> entriesOf parseLine k ls
        | Some e \<Rightarrow> if entrySessionId e = Some k then e # entriesOf parseLine k ls
                    else entriesOf parseLine k ls)"
  by (simp add: entriesOf_def map_filter_simps split: option.splits)

lemma entriesOf_append:
  "entriesOf parseLine k (xs @ ys) = entriesOf parseLine k xs @ entriesOf parseLine k ys"
  by (simp add: entriesOf_def map_filter_append)

lemma entriesOf_none:
  "\<forall>l \<in> set ls. \<not> isLineOf parseLine k l \<Longrightarrow> entriesOf parseLine k ls = []"
  by (induction ls) (auto simp: entriesOf_Cons isLineOf_def entriesOf_def map_filter_simps
      split: option.splits)

lemma stepOf_Some:
  "foldl (stepOf clock parseLine k) (Some s) (enumerate n ls)
     = Some (foldl (\<lambda>s e. updateSession e s) s (entriesOf parseLine k ls))"
  by (induction ls arbitrary: s n)
     (auto simp: stepOf_def entriesOf_Cons entriesOf_Nil split: option.splits)

lemma stepOf_skip:
  "\<forall>l \<in> set ls. \<not> isLineOf parseLine k l \<Longrightarrow>
   foldl (stepOf clock parseLine k) so (enumerate n ls) = so"
  by (induction ls arbitrary: n) (auto simp: stepOf_def isLineOf_def split: option.splits)

lemma validTimes_snoc:
  "validTimes (es @ [e])
     = validTimes es @ (case entryTimestamp e of DateMs ms \<Rightarrow> [ms] | _ \<Rightarrow> [])"
  by (simp add: validTimes_def map_filter_append map_filter_simps split: timestampField.splits)

lemma foldl_updateSession:
  "ident (foldl (\<lambda>s e. updateSession e s) s es) = ident s
   \<and> messageCount (foldl (\<lambda>s e. updateSession e s) s es)
       = messageCount s + length (filter isMessage es)
   \<and> lastActivity (foldl (\<lambda>s e. updateSession e s) s es)
       = (if validTimes es = [] then lastActivity s else last (validTimes es))"
proof (induction es rule: rev_induct)
  case Nil
  then show ?case by (simp add: validTimes_def map_filter_simps)
next
  case (snoc e es)
  then show ?case
    by (simp add: ident_updateSession messageCount_updateSession lastActivity_updateSession
        validTimes_snoc split: timestampField.splits)
qed

lemma sessionsOfFile_lookup:
  assumes k: "truthy k"
  shows "map_of (sessionsOfFile clock parseLine c) k
           = (if list_ex (isLineOf parseLine k) (readLines c)
              then (case dropWhile (\<lambda>l. \<not> isLineOf parseLine k l) (readLines c) of
                      [] \<Rightarrow> None
                    | l0 # post \<Rightarrow>
                        (case parseLine l0 of
                           None \<Rightarrow> None
                         | Some e0 \<Rightarrow>
                             Some (foldl (\<lambda>s e. updateSession e s)
                                     (newSession (clock (firstSeenAt parseLine k c)) e0 k)
                                     (sessionEntries parseLine k c))))
              else None)"
proof (cases "list_ex (isLineOf parseLine k) (readLines c)")
  case False
  then have "\<forall>l \<in> set (readLines c). \<not> isLineOf parseLine k l" by (simp add: list_ex_iff)
  from stepOf_skip [OF this] False show ?thesis
    by (simp add: sessionsOfFile_def map_of_sessions_fold [OF k])
next
  case True
  let ?ls = "readLines c"
  let ?P = "\<lambda>l. \<not> isLineOf parseLine k l"
  let ?pre = "takeWhile ?P ?ls" and ?rest = "dropWhile ?P ?ls"
  have ne: "?rest \<noteq> []" using True by (simp add: dropWhile_eq_Nil_conv list_ex_iff)
  then obtain l0 post where rest: "?rest = l0 # post" by (cases ?rest) auto
  have l0: "isLineOf parseLine k l0" using hd_dropWhile [OF ne] rest by simp
  then obtain e0 where e0: "parseLine l0 = Some e0" "entrySessionId e0 = Some k"
    by (auto simp: isLineOf_def split: option.splits)
  have dec: "?ls = ?pre @ l0 # post" using rest by (metis takeWhile_dropWhile_id)
  have pre: "\<forall>l \<in> set ?pre. \<not> isLineOf parseLine k l" by (auto dest: set_takeWhileD)
  have en: "enumerate 0 ?ls
              = enumerate 0 ?pre @ (length ?pre, l0) # enumerate (Suc (length ?pre)) post"
    by (subst dec) (simp add: enumerate_append_eq)
  have step0: "stepOf clock parseLine k None (length ?pre, l0)
                 = Some (updateSession e0 (newSession (clock (length ?pre)) e0 k))"
    using e0 by (simp add: stepOf_def)
  have es: "sessionEntries parseLine k c = e0 # entriesOf parseLine k post"
    unfolding sessionEntries_entriesOf
    by (subst dec) (simp add: entriesOf_append entriesOf_none [OF pre] entriesOf_Cons e0)
  have "map_of (sessionsOfFile clock parseLine c) k
          = foldl (stepOf clock parseLine k) None (enumerate 0 ?ls)"
    by (simp add: sessionsOfFile_def map_of_sessions_fold [OF k])
  also have "\<dots> = Some (foldl (\<lambda>s e. updateSession e s)
                          (updateSession e0 (newSession (clock (length ?pre)) e0 k))
                          (entriesOf parseLine k post))"
    unfolding en by (simp add: stepOf_skip [OF pre] step0 stepOf_Some)
  also have "\<dots> = Some (foldl (\<lambda>s e. updateSession e s)
                          (newSession (clock (firstSeenAt parseLine k c)) e0 k)
                          (sessionEntries parseLine k c))"
    by (simp add: es firstSeenAt_def)
  finally show ?thesis using True rest e0 by simp
qed


lemma sessionsOfFile_None:
  assumes "truthy k" and "\<not> list_ex (isLineOf parseLine k) (readLines c)"
  shows "map_of (sessionsOfFile clock parseLine c) k = None"
  using assms by (simp add: sessionsOfFile_lookup)

lemma sessionsOfFile_Some:
  assumes k: "truthy k" and ex: "list_ex (isLineOf parseLine k) (readLines c)"
  shows "\<exists>s. map_of (sessionsOfFile clock parseLine c) k = Some s
             \<and> ident s = k
             \<and> messageCount s = length (filter isMessage (sessionEntries parseLine k c))
             \<and> lastActivity s
                 = (if validTimes (sessionEntries parseLine k c) = []
                    then clock (firstSeenAt parseLine k c)
                    else last (validTimes (sessionEntries parseLine k c)))"
proof -
  let ?rest = "dropWhile (\<lambda>l. \<not> isLineOf parseLine k l) (readLines c)"
  have ne: "?rest \<noteq> []" using ex by (simp add: dropWhile_eq_Nil_conv list_ex_iff)
  then obtain l0 post where rest: "?rest = l0 # post" by (cases ?rest) auto
  have "isLineOf parseLine k l0" using hd_dropWhile [OF ne] rest by simp
  then obtain e0 where e0: "parseLine l0 = Some e0"
    by (auto simp: isLineOf_def split: option.splits)
  let ?s = "foldl (\<lambda>s e. updateSession e s) (newSession (clock (firstSeenAt parseLine k c)) e0 k)
              (sessionEntries parseLine k c)"
  have "map_of (sessionsOfFile clock parseLine c) k = Some ?s"
    using ex rest e0 by (simp add: sessionsOfFile_lookup [OF k])
  moreover have "ident ?s = k"
    and "messageCount ?s = length (filter isMessage (sessionEntries parseLine k c))"
    and "lastActivity ?s
                 = (if validTimes (sessionEntries parseLine k c) = []
                    then clock (firstSeenAt parseLine k c)
                    else last (validTimes (sessionEntries parseLine k c)))"
    using foldl_updateSession [of "newSession (clock (firstSeenAt parseLine k c)) e0 k"
        "sessionEntries parseLine k c"]
    by (simp_all add: newSession_def)
  ultimately show ?thesis by blast
qed

lemma sessionsOfFile_distinct: "distinct (map fst (sessionsOfFile clock parseLine c))"
  by (simp add: sessionsOfFile_def distinct_sessions_fold)

lemma sessionsOfFile_keyed: "keyedByIdent (sessionsOfFile clock parseLine c)"
proof -
  have "keyedByIdent []" by (simp add: keyedByIdent_def)
  then show ?thesis unfolding sessionsOfFile_def by (rule keyed_sessions_fold)
qed

lemma find_parseJsonlSessions:
  "find (\<lambda>s. ident s = k) (parseJsonlSessions clock parseLine c)
     = map_of (sessionsOfFile clock parseLine c) k"
proof -
  have "filter (\<lambda>s. ident s = k) (parseJsonlSessions clock parseLine c)
          = sort_key (\<lambda>s. - lastActivity s)
              (filter (\<lambda>s. ident s = k) (map snd (sessionsOfFile clock parseLine c)))"
    by (simp add: parseJsonlSessions_def filter_sort)
  also have "\<dots> = (case map_of (sessionsOfFile clock parseLine c) k of None \<Rightarrow> [] | Some s \<Rightarrow> [s])"
    by (simp add: keyed_filter [OF sessionsOfFile_keyed sessionsOfFile_distinct]
        split: option.splits)
  finally show ?thesis by (simp add: find_via_filter split: option.splits)
qed

lemma map_of_mergeSession:
  "map_of (mergeSession al x) k
     = (case map_of al k of Some s \<Rightarrow> Some s | None \<Rightarrow> if ident x = k then Some x else None)"
  by (auto simp: mergeSession_def map_of_append map_add_def split: option.splits)

lemma map_of_foldl_mergeSession:
  "map_of (foldl mergeSession al xs) k
     = (case map_of al k of Some s \<Rightarrow> Some s | None \<Rightarrow> find (\<lambda>s. ident s = k) xs)"
  by (induction xs arbitrary: al) (auto simp: map_of_mergeSession split: option.splits)

lemma distinct_mergeSession:
  "distinct (map fst al) \<Longrightarrow> distinct (map fst (mergeSession al x))"
  by (auto simp: mergeSession_def map_of_eq_None_iff split: option.splits)

lemma distinct_foldl_mergeSession:
  "distinct (map fst al) \<Longrightarrow> distinct (map fst (foldl mergeSession al xs))"
  by (induction xs arbitrary: al) (simp_all add: distinct_mergeSession)

lemma keyed_mergeSession: "keyedByIdent al \<Longrightarrow> keyedByIdent (mergeSession al x)"
  by (simp add: mergeSession_def keyedByIdent_def split: option.splits)

lemma keyed_foldl_mergeSession: "keyedByIdent al \<Longrightarrow> keyedByIdent (foldl mergeSession al xs)"
  by (induction xs arbitrary: al) (simp_all add: keyed_mergeSession)

lemma foldl_foldl_concat:
  "foldl (\<lambda>a f. foldl g a (P f)) a fs = foldl g a (concat (map P fs))"
  by (induction fs arbitrary: a) simp_all

lemma find_concat_first:
  assumes "\<forall>f' \<in> set pre. find Q (P f') = None" and "find Q (P f) = Some s"
  shows "find Q (concat (map P (pre @ f # post))) = Some s"
  using assms by (induction pre) (simp_all add: find_append)

lemma find_concat_none:
  assumes "\<forall>f' \<in> set fs. find Q (P f') = None"
  shows "find Q (concat (map P fs)) = None"
  using assms by (induction fs) (simp_all add: find_append)


lemma sortedSessions_alt:
  "sortedSessions clock parseLine mtime dir
     = sort_key (\<lambda>s. - lastActivity s)
         (map snd (foldl mergeSession []
            (concat (map (sessionsOfName clock parseLine dir)
                       (sort_key (\<lambda>f. - mtime f) (filter isJsonl (map fst dir)))))))"
  unfolding sortedSessions_def Let_def sessionsOfName_def [abs_def]
  by (simp only: foldl_foldl_concat)

lemma sortedSessions_filter:
  "filter (\<lambda>s. ident s = k) (sortedSessions clock parseLine mtime dir)
     = (case find (\<lambda>s. ident s = k)
               (concat (map (sessionsOfName clock parseLine dir)
                          (sort_key (\<lambda>f. - mtime f) (filter isJsonl (map fst dir))))) of
          None \<Rightarrow> []
        | Some s \<Rightarrow> [s])"
proof -
  let ?xs = "concat (map (sessionsOfName clock parseLine dir)
                       (sort_key (\<lambda>f. - mtime f) (filter isJsonl (map fst dir))))"
  let ?all = "foldl mergeSession [] ?xs"
  have d: "distinct (map fst ?all)" by (rule distinct_foldl_mergeSession) simp
  have "keyedByIdent []" by (simp add: keyedByIdent_def)
  then have kd: "keyedByIdent ?all" by (rule keyed_foldl_mergeSession)
  have "filter (\<lambda>s. ident s = k) (sortedSessions clock parseLine mtime dir)
          = sort_key (\<lambda>s. - lastActivity s) (filter (\<lambda>s. ident s = k) (map snd ?all))"
    by (simp only: sortedSessions_alt filter_sort)
  also have "\<dots> = (case map_of ?all k of None \<Rightarrow> [] | Some s \<Rightarrow> [s])"
    by (simp add: keyed_filter [OF kd d] split: option.splits)
  also have "map_of ?all k = find (\<lambda>s. ident s = k) ?xs"
    by (simp add: map_of_foldl_mergeSession)
  finally show ?thesis .
qed

lemma find_sessionsOfName_None:
  assumes "truthy k" and "\<not> holdsSession parseLine dir k f"
  shows "find (\<lambda>s. ident s = k) (sessionsOfName clock parseLine dir f) = None"
  using assms
  by (auto simp: sessionsOfName_def holdsSession_def find_parseJsonlSessions sessionsOfFile_None
      split: option.splits)

lemma winningFile_split:
  assumes "winningFile parseLine mtime dir k = Some f"
  shows "\<exists>pre post. sort_key (\<lambda>f. - mtime f) (filter isJsonl (map fst dir)) = pre @ f # post
                     \<and> (\<forall>f' \<in> set pre. \<not> holdsSession parseLine dir k f')
                     \<and> holdsSession parseLine dir k f"
proof -
  let ?fs = "sort_key (\<lambda>f. - mtime f) (filter isJsonl (map fst dir))"
  from assms obtain i where i: "i < length ?fs" "?fs ! i = f" "holdsSession parseLine dir k f"
    "\<forall>j < i. \<not> holdsSession parseLine dir k (?fs ! j)"
    unfolding winningFile_def find_Some_iff by blast
  have "?fs = take i ?fs @ f # drop (Suc i) ?fs" using i(1,2) by (metis id_take_nth_drop)
  moreover have "\<forall>f' \<in> set (take i ?fs). \<not> holdsSession parseLine dir k f'"
    using i(1,4) by (auto simp: in_set_conv_nth)
  ultimately show ?thesis using i(3) by blast
qed

lemma getClaudeSessions_page:
  "sessions (getClaudeSessions clock parseLine mtime (Some dir) lim off)
     = take lim (drop off (sortedSessions clock parseLine mtime dir))"
  "total (getClaudeSessions clock parseLine mtime (Some dir) lim off)
     = length (sortedSessions clock parseLine mtime dir)"
proof -
  have e: "sortedSessions clock parseLine mtime dir = []" if "filter isJsonl (map fst dir) = []"
    unfolding sortedSessions_def Let_def that by simp
  have e': "sortedSessions clock parseLine mtime dir = []" if "filter (isJsonl \<circ> fst) dir = []"
    using that by (intro e) (simp add: filter_map)
  show "sessions (getClaudeSessions clock parseLine mtime (Some dir) lim off)
     = take lim (drop off (sortedSessions clock parseLine mtime dir))"
    by (cases "filter isJsonl (map fst dir) = []")
       (auto simp: getClaudeSessions_def Let_def e e')
  show "total (getClaudeSessions clock parseLine mtime (Some dir) lim off)
     = length (sortedSessions clock parseLine mtime dir)"
    by (cases "filter isJsonl (map fst dir) = []")
       (auto simp: getClaudeSessions_def Let_def e e')
qed

text \<open>
  C3, amended. When several logs of an alias directory hold lines of a session, the listing
  holds exactly one summary of it: the one computed from the first file, in descending order
  of modification time, that holds a line of the session. Its message count is the number
  of user and assistant lines of the session in that file alone; its last activity is the
  timestamp of the last line of the session in that file that carries a readable one (the
  reading time of the session's first line if none does). A session that no \<open>.jsonl\<close>
  file holds has no summary. The page returned is the slice of the listing, and the total
  its length.
\<close>

theorem session_merge_first_file_wins:
  "(k \<noteq> [] \<and> winningFile parseLine mtime dir k = Some f \<and> readFile dir f = Some c \<longrightarrow>
      (let es = sessionEntries parseLine k c;
           matching = filter (\<lambda>s. ident s = k) (sortedSessions clock parseLine mtime dir)
       in length matching = 1
          \<and> map messageCount matching = [length (filter isMessage es)]
          \<and> map lastActivity matching
              = [if validTimes es = [] then clock f (firstSeenAt parseLine k c)
                 else last (validTimes es)]))
   \<and> (k \<noteq> [] \<and> winningFile parseLine mtime dir k = None \<longrightarrow>
        filter (\<lambda>s. ident s = k) (sortedSessions clock parseLine mtime dir) = [])
   \<and> sessions (getClaudeSessions clock parseLine mtime (Some dir) lim off)
        = take lim (drop off (sortedSessions clock parseLine mtime dir))
   \<and> total (getClaudeSessions clock parseLine mtime (Some dir) lim off)
        = length (sortedSessions clock parseLine mtime dir)"
proof (intro conjI impI)
  assume a: "k \<noteq> [] \<and> winningFile parseLine mtime dir k = Some f \<and> readFile dir f = Some c"
  then have k: "truthy k" by (simp add: truthy_def)
  from a winningFile_split obtain pre post
    where sp: "sort_key (\<lambda>f. - mtime f) (filter isJsonl (map fst dir)) = pre @ f # post"
      and none: "\<forall>f' \<in> set pre. \<not> holdsSession parseLine dir k f'"
      and holds: "holdsSession parseLine dir k f"
    by blast
  from holds a have ex: "list_ex (isLineOf parseLine k) (readLines c)"
    by (simp add: holdsSession_def)
  from sessionsOfFile_Some [OF k ex, of "clock f"] obtain s
    where s: "map_of (sessionsOfFile (clock f) parseLine c) k = Some s"
      and mc: "messageCount s = length (filter isMessage (sessionEntries parseLine k c))"
      and la: "lastActivity s
                 = (if validTimes (sessionEntries parseLine k c) = []
                    then clock f (firstSeenAt parseLine k c)
                    else last (validTimes (sessionEntries parseLine k c)))"
    by blast
  have fnd: "find (\<lambda>s. ident s = k) (sessionsOfName clock parseLine dir f) = Some s"
    using a s by (simp add: sessionsOfName_def find_parseJsonlSessions)
  have pre: "\<forall>f' \<in> set pre. find (\<lambda>s. ident s = k) (sessionsOfName clock parseLine dir f') = None"
    using none find_sessionsOfName_None [OF k] by blast
  have F: "find (\<lambda>s. ident s = k)
             (concat (map (sessionsOfName clock parseLine dir) (pre @ f # post))) = Some s"
    by (rule find_concat_first [OF pre fnd])
  have "filter (\<lambda>s. ident s = k) (sortedSessions clock parseLine mtime dir) = [s]"
    unfolding sortedSessions_filter sp F by simp
  then show "(let es = sessionEntries parseLine k c;
           matching = filter (\<lambda>s. ident s = k) (sortedSessions clock parseLine mtime dir)
       in length matching = 1
          \<and> map messageCount matching = [length (filter isMessage es)]
          \<and> map lastActivity matching
              = [if validTimes es = [] then clock f (firstSeenAt parseLine k c)
                 else last (validTimes es)])"
    using mc la by (simp add: Let_def)
next
  assume a: "k \<noteq> [] \<and> winningFile parseLine mtime dir k = None"
  then have k: "truthy k" by (simp add: truthy_def)
  from a have "\<forall>f' \<in> set (sort_key (\<lambda>f. - mtime f) (filter isJsonl (map fst dir))).
                 \<not> holdsSession parseLine dir k f'"
    unfolding winningFile_def find_None_iff by blast
  then have "\<forall>f' \<in> set (sort_key (\<lambda>f. - mtime f) (filter isJsonl (map fst dir))).
               find (\<lambda>s. ident s = k) (sessionsOfName clock parseLine dir f') = None"
    using find_sessionsOfName_None [OF k] by blast
  from find_concat_none [OF this]
  show "filter (\<lambda>s. ident s = k) (sortedSessions clock parseLine mtime dir) = []"
    unfolding sortedSessions_filter by simp
next
  show "sessions (getClaudeSessions clock parseLine mtime (Some dir) lim off)
        = take lim (drop off (sortedSessions clock parseLine mtime dir))"
    by (rule getClaudeSessions_page(1))
next
  show "total (getClaudeSessions clock parseLine mtime (Some dir) lim off)
        = length (sortedSessions clock parseLine mtime dir)"
    by (rule getClaudeSessions_page(2))
qed


lemma example_winning:
  "winningFile exampleSessionParse exampleMtime exampleSessionDir ''s'' = Some ''newer.jsonl''"
  "readFile exampleSessionDir ''newer.jsonl'' = Some exampleNewerLog"
  by code_simp+

lemma example_entries:
  "length (filter isMessage (sessionEntries exampleSessionParse ''s'' exampleNewerLog)) = 1"
  "validTimes (sessionEntries exampleSessionParse ''s'' exampleNewerLog) = [100]"
  by code_simp+

text \<open>
  C3 on the two example logs: the listing has one summary of \<open>s\<close>, with the one message and
  the timestamp of the newer file.
\<close>

theorem session_merge_first_file_wins_witness:
  "map messageCount
     (filter (\<lambda>s. ident s = ''s'')
        (sortedSessions (\<lambda>f i. 0) exampleSessionParse exampleMtime exampleSessionDir)) = [1]
   \<and> map lastActivity
       (filter (\<lambda>s. ident s = ''s'')
          (sortedSessions (\<lambda>f i. 0) exampleSessionParse exampleMtime exampleSessionDir)) = [100]"
  using session_merge_first_file_wins
    [of "''s''" exampleSessionParse exampleMtime exampleSessionDir "''newer.jsonl''" exampleNewerLog
       "\<lambda>f i. 0" 5 0]
  by (simp add: example_winning example_entries Let_def)

text \<open>
  C3 as stated fails: on the two example logs the union holds three messages of \<open>s\<close>, the
  latest at 300 ms, and the summary of the listing counts one and gives 100 ms.
\<close>

theorem session_merge_union_counterexample:
  "\<not> sessionMergeClaim (\<lambda>f i. 0) exampleSessionParse exampleMtime exampleSessionDir ''s''"
  by code_simp


end
